theory Spec2Isabelle
  imports Main "HOL-Library.Word" "HOL-Library.Multiset"
begin

unbundle bit_operations_syntax

section \<open>Data model of find.cpp\<close>

text \<open>
  The program is a single translation unit for Linux. The integer types are those of
  the LP64 ABI (x86-64 glibc): \<open>ino_t\<close>, \<open>nlink_t\<close> and \<open>unsigned long\<close> are unsigned
  64-bit, \<open>off_t\<close> and \<open>int64_t\<close> are signed 64-bit (a word read through \<open>sint\<close> and
  compared with \<open><s\<close>), \<open>mode_t\<close> is unsigned 32-bit.
\<close>

type_synonym ino_t = "64 word"
type_synonym nlink_t = "64 word"
type_synonym off_t = "64 word"
type_synonym int64_t = "64 word"
type_synonym mode_t = "32 word"

text \<open>\<^verbatim>\<open>#define NOSIZE INT64_MAX\<close>\<close>

definition NOSIZE :: int64_t where
  "NOSIZE = 9223372036854775807"

text \<open>The members of \<^verbatim>\<open>struct stat\<close> that the program reads.\<close>

record stat =
  st_ino :: ino_t
  st_mode :: mode_t
  st_nlink :: nlink_t
  st_size :: off_t

text \<open>\<^verbatim>\<open>S_ISDIR(m)\<close> of \<^verbatim>\<open>sys/stat.h\<close>: \<^verbatim>\<open>((m) & 0170000) == 0040000\<close>.\<close>

definition S_ISDIR :: "mode_t \<Rightarrow> bool" where
  "S_ISDIR m = (m AND 61440 = 16384)"

text \<open>
  \<^verbatim>\<open>struct usage\<close>. The member \<^verbatim>\<open>size\<close> is called \<open>size'\<close> here. The \<^verbatim>\<open>needs_*\<close>
  members are C \<^verbatim>\<open>int\<close>s used as truth values.
\<close>

record usage =
  path :: string
  needs_inum :: int
  inum :: ino_t
  needs_name :: int
  name :: string
  size_sign :: int64_t
  size' :: off_t
  needs_nlinks :: int
  nlinks :: nlink_t
  needs_exec :: int
  exec_path :: string

text \<open>
  \<^verbatim>\<open>usage arguments;\<close> default-initialises the struct: the strings are empty, the members
  with an initialiser take it, and \<^verbatim>\<open>inum\<close>, \<^verbatim>\<open>size\<close> and \<^verbatim>\<open>nlinks\<close> have no initialiser,
  so they hold indeterminate values, which the model takes as parameters.
\<close>

record indeterminate =
  any_inum :: ino_t
  any_size :: off_t
  any_nlinks :: nlink_t

definition usage_default :: "indeterminate \<Rightarrow> usage" where
  "usage_default j =
     \<lparr>path = [], needs_inum = 0, inum = any_inum j, needs_name = 0, name = [],
      size_sign = NOSIZE, size' = any_size j, needs_nlinks = 0, nlinks = any_nlinks j,
      needs_exec = 0, exec_path = []\<rparr>"

text \<open>The globals \<^verbatim>\<open>static bool ok = true; static std::string reason;\<close>\<close>

record globals =
  ok :: bool
  reason :: string

definition globals_init :: globals where
  "globals_init = \<lparr>ok = True, reason = []\<rparr>"

section \<open>The predicate matcher\<close>

text \<open>
  \<^verbatim>\<open>bool check(const usage& arguments, const struct stat& sb, const std::string& name)\<close>.
  Each \<^verbatim>\<open>satisfy &= ...\<close> is one \<open>let\<close>; the \<^verbatim>\<open>switch\<close> keeps its three cases and its
  empty \<^verbatim>\<open>default\<close>. The sizes are \<^verbatim>\<open>off_t\<close>, so \<^verbatim>\<open><\<close> and \<^verbatim>\<open>>\<close> are signed.
\<close>

definition check :: "usage \<Rightarrow> stat \<Rightarrow> string \<Rightarrow> bool" where
  "check arguments sb nm =
     (let satisfy = True;
          satisfy = (if needs_nlinks arguments \<noteq> 0
                     then satisfy \<and> nlinks arguments = st_nlink sb else satisfy);
          satisfy = (if needs_name arguments \<noteq> 0
                     then satisfy \<and> name arguments = nm else satisfy);
          satisfy = (if needs_inum arguments \<noteq> 0
                     then satisfy \<and> inum arguments = st_ino sb else satisfy);
          satisfy = (if size_sign arguments \<noteq> NOSIZE then
                       (if size_sign arguments = - 1
                          then satisfy \<and> st_size sb <s size' arguments
                        else if size_sign arguments = 0
                          then satisfy \<and> st_size sb = size' arguments
                        else if size_sign arguments = 1
                          then satisfy \<and> size' arguments <s st_size sb
                        else satisfy)
                     else satisfy)
      in satisfy)"

text \<open>
  The contract of the matcher in the specification's words: each optional filter is
  present or absent, a present filter constrains its attribute, and an entry matches
  when it satisfies every present filter. The size filter is present with one of the
  three relations (less than, equal to, greater than).
\<close>

datatype relation = Less_than | Equal_to | Greater_than

definition size_filter :: "usage \<Rightarrow> (relation \<times> int) option" where
  "size_filter a =
     (if size_sign a = - 1 then Some (Less_than, sint (size' a))
      else if size_sign a = 0 then Some (Equal_to, sint (size' a))
      else if size_sign a = 1 then Some (Greater_than, sint (size' a))
      else None)"

definition inum_filter :: "usage \<Rightarrow> nat option" where
  "inum_filter a = (if needs_inum a \<noteq> 0 then Some (unat (inum a)) else None)"

definition nlinks_filter :: "usage \<Rightarrow> nat option" where
  "nlinks_filter a = (if needs_nlinks a \<noteq> 0 then Some (unat (nlinks a)) else None)"

definition name_filter :: "usage \<Rightarrow> string option" where
  "name_filter a = (if needs_name a \<noteq> 0 then Some (name a) else None)"

fun size_satisfies :: "relation \<times> int \<Rightarrow> int \<Rightarrow> bool" where
  "size_satisfies (Less_than, n) sz = (sz < n)"
| "size_satisfies (Equal_to, n) sz = (sz = n)"
| "size_satisfies (Greater_than, n) sz = (sz > n)"

definition satisfies_active :: "usage \<Rightarrow> stat \<Rightarrow> string \<Rightarrow> bool" where
  "satisfies_active a sb nm =
     ((case nlinks_filter a of None \<Rightarrow> True | Some n \<Rightarrow> unat (st_nlink sb) = n) \<and>
      (case name_filter a of None \<Rightarrow> True | Some s \<Rightarrow> nm = s) \<and>
      (case inum_filter a of None \<Rightarrow> True | Some n \<Rightarrow> unat (st_ino sb) = n) \<and>
      (case size_filter a of None \<Rightarrow> True | Some f \<Rightarrow> size_satisfies f (sint (st_size sb))))"

section \<open>The argument parser\<close>

text \<open>
  What can end \<^verbatim>\<open>parse_arguments\<close> other than a \<^verbatim>\<open>return\<close>: the two exceptions of
  \<^verbatim>\<open>std::stoul\<close>, which nothing in the program catches, and the construction of a
  \<^verbatim>\<open>std::string\<close> from a null pointer, which is undefined behaviour.
\<close>

datatype failure = Invalid_argument | Out_of_range | Null_string

text \<open>
  \<^verbatim>\<open>argv\<close> is the list of its \<^verbatim>\<open>argc\<close> strings; \<^verbatim>\<open>argv[argc]\<close> is the null pointer
  (\<open>None\<close>). The parser never indexes beyond \<^verbatim>\<open>argv[argc]\<close> when \<^verbatim>\<open>argc\<close> is at least 1.
\<close>

definition argv_at :: "string list \<Rightarrow> nat \<Rightarrow> string option" where
  "argv_at argv i = (if i < length argv then Some (argv ! i) else None)"

text \<open>
  \<^verbatim>\<open>std::stoul(str)\<close> is \<^verbatim>\<open>strtoul(str.c_str(), &end, 10)\<close>: leading white space is
  skipped, one sign is accepted, then the longest run of decimal digits is read and what
  follows it is ignored. No digit: \<^verbatim>\<open>std::invalid_argument\<close>. A magnitude above
  \<^verbatim>\<open>ULONG_MAX\<close>: \<^verbatim>\<open>std::out_of_range\<close>. After a minus sign the result is negated in
  \<^verbatim>\<open>unsigned long\<close>.
\<close>

definition isspace :: "char \<Rightarrow> bool" where
  "isspace c = (c \<in> set [CHR '' '', CHR 0x09, CHR 0x0A, CHR 0x0B, CHR 0x0C, CHR 0x0D])"

definition isdigit :: "char \<Rightarrow> bool" where
  "isdigit c = (c \<in> set ''0123456789'')"

definition digit_value :: "char \<Rightarrow> nat" where
  "digit_value c = of_char c - 48"

fun digits_value :: "nat \<Rightarrow> string \<Rightarrow> nat" where
  "digits_value acc [] = acc"
| "digits_value acc (c # cs) = digits_value (10 * acc + digit_value c) cs"

definition ULONG_MAX :: nat where
  "ULONG_MAX = 18446744073709551615"

definition stoul :: "string \<Rightarrow> failure + 64 word" where
  "stoul str =
     (let s = dropWhile isspace str;
          negative = (case s of [] \<Rightarrow> False | c # _ \<Rightarrow> c = CHR ''-'');
          s = (case s of [] \<Rightarrow> [] | c # cs \<Rightarrow> if c = CHR ''-'' \<or> c = CHR ''+'' then cs else s);
          ds = takeWhile isdigit s;
          n = digits_value 0 ds
      in if ds = [] then Inl Invalid_argument
         else if n > ULONG_MAX then Inl Out_of_range
         else Inr (if negative then - word_of_nat n else word_of_nat n))"

text \<open>
  The body of the loop of \<^verbatim>\<open>parse_arguments\<close>, for the strings \<^verbatim>\<open>option\<close> and
  \<^verbatim>\<open>value\<close>: it goes on to the next pair with the updated \<^verbatim>\<open>arguments\<close>, leaves the
  function through one of the two early \<^verbatim>\<open>return arguments;\<close> with the globals set, or
  throws. The conversions of the \<^verbatim>\<open>unsigned long\<close> to \<^verbatim>\<open>ino_t\<close>, \<^verbatim>\<open>nlink_t\<close> and
  \<^verbatim>\<open>off_t\<close> keep the 64 bits. \<^verbatim>\<open>value[0]\<close> of an empty string is the terminating
  \<^verbatim>\<open>'\0'\<close>, which takes the \<^verbatim>\<open>default\<close> case of the \<^verbatim>\<open>switch\<close>.
\<close>

datatype step = Continue usage | Return usage globals | Throw failure

definition parse_pair :: "string \<Rightarrow> string \<Rightarrow> usage \<Rightarrow> globals \<Rightarrow> step" where
  "parse_pair opt val arguments g =
     (if opt = ''-inum'' then
        (case stoul val of
           Inl e \<Rightarrow> Throw e
         | Inr n \<Rightarrow> Continue (arguments\<lparr>needs_inum := 1, inum := n\<rparr>))
      else if opt = ''-name'' then
        Continue (arguments\<lparr>needs_name := 1, name := val\<rparr>)
      else if opt = ''-size'' then
        (case (case val of
                 [] \<Rightarrow> None
               | sign # _ \<Rightarrow>
                   if sign = CHR ''-'' then Some (- 1)
                   else if sign = CHR ''='' then Some 0
                   else if sign = CHR ''+'' then Some 1
                   else None) of
           None \<Rightarrow>
             Return arguments (g\<lparr>ok := False, reason := ''Wrong usage of \"size\" option''\<rparr>)
         | Some sign_value \<Rightarrow>
             (case stoul (drop 1 val) of
                Inl e \<Rightarrow> Throw e
              | Inr n \<Rightarrow> Continue (arguments\<lparr>size_sign := sign_value, size' := n\<rparr>)))
      else if opt = ''-nlinks'' then
        (case stoul val of
           Inl e \<Rightarrow> Throw e
         | Inr n \<Rightarrow> Continue (arguments\<lparr>needs_nlinks := 1, nlinks := n\<rparr>))
      else if opt = ''-exec'' then
        Continue (arguments\<lparr>needs_exec := 1, exec_path := val\<rparr>)
      else Return arguments (g\<lparr>ok := False, reason := ''Unknown option''\<rparr>))"

text \<open>
  The loop \<^verbatim>\<open>for (int i = 2; i < argc; i += 2)\<close>. Both strings \<^verbatim>\<open>option(argv[i])\<close> and
  \<^verbatim>\<open>value(argv[i + 1])\<close> are constructed before the flag is looked at.
\<close>

function parse_loop ::
  "string list \<Rightarrow> nat \<Rightarrow> usage \<Rightarrow> globals \<Rightarrow> failure + usage \<times> globals" where
  "parse_loop argv i arguments g =
     (if i < length argv then
        (case argv_at argv i of
           None \<Rightarrow> Inl Null_string
         | Some opt \<Rightarrow>
            (case argv_at argv (i + 1) of
               None \<Rightarrow> Inl Null_string
             | Some val \<Rightarrow>
                (case parse_pair opt val arguments g of
                   Continue arguments' \<Rightarrow> parse_loop argv (i + 2) arguments' g
                 | Return arguments' g' \<Rightarrow> Inr (arguments', g')
                 | Throw e \<Rightarrow> Inl e)))
      else Inr (arguments, g))"
  by pat_completeness auto
termination
  by (relation "measure (\<lambda>(argv, i, arguments, g). length argv - i)") auto

declare parse_loop.simps [simp del]

text \<open>
  \<^verbatim>\<open>usage parse_arguments(int& argc, char* argv[])\<close>. The assignment
  \<^verbatim>\<open>arguments.path = argv[1]\<close> comes first; with \<^verbatim>\<open>argc\<close> at most 1 there is no such
  string.
\<close>

definition parse_arguments ::
  "indeterminate \<Rightarrow> string list \<Rightarrow> globals \<Rightarrow> failure + usage \<times> globals" where
  "parse_arguments j argv g =
     (case argv_at argv 1 of
        None \<Rightarrow> Inl Null_string
      | Some p \<Rightarrow> parse_loop argv 2 ((usage_default j)\<lparr>path := p\<rparr>) g)"

section \<open>The tree walker\<close>

text \<open>
  The file system as the walker sees it: \<^verbatim>\<open>opendir\<close> followed by the \<^verbatim>\<open>readdir\<close> calls
  gives the names of a directory in listing order, the entries \<^verbatim>\<open>.\<close> and \<^verbatim>\<open>..\<close>
  included, or fails; \<^verbatim>\<open>lstat\<close> gives the metadata of a path without following a
  symbolic link, or fails.
\<close>

record filesystem =
  opendir :: "string \<Rightarrow> string list option"
  lstat :: "string \<Rightarrow> stat option"

text \<open>
  The state of \<^verbatim>\<open>find\<close>: the \<^verbatim>\<open>std::queue\<close>, the \<^verbatim>\<open>result\<close> vector and the lines
  \<^verbatim>\<open>perror\<close> has written (by the name that \<^verbatim>\<open>perror\<close> was given).
\<close>

record walk =
  queue :: "string list"
  result :: "string list"
  errlog :: "string list"

text \<open>
  The body of the inner loop for the entry named \<^verbatim>\<open>relative_path\<close>: the two
  pseudo-entries are skipped, the path is \<^verbatim>\<open>cur_dir + "/" + relative_path\<close>
  (\<open>join_path\<close>), a failed \<^verbatim>\<open>lstat\<close> is reported and skipped, a directory is
  pushed on the queue, and anything else goes through \<^verbatim>\<open>check\<close>.
\<close>

definition join_path :: "string \<Rightarrow> string \<Rightarrow> string" where
  "join_path cur_dir relative_path = cur_dir @ ''/'' @ relative_path"

definition visit_entry :: "filesystem \<Rightarrow> usage \<Rightarrow> string \<Rightarrow> string \<Rightarrow> walk \<Rightarrow> walk" where
  "visit_entry fs arguments cur_dir relative_path w =
     (if relative_path = ''.'' \<or> relative_path = ''..'' then w
      else
        (let p = join_path cur_dir relative_path in
         case lstat fs p of
           None \<Rightarrow> w\<lparr>errlog := errlog w @ [''lstat'']\<rparr>
         | Some sb \<Rightarrow>
             if S_ISDIR (st_mode sb) then w\<lparr>queue := queue w @ [p]\<rparr>
             else if check arguments sb relative_path then w\<lparr>result := result w @ [p]\<rparr>
             else w))"

text \<open>The inner loop \<^verbatim>\<open>while ((entry = readdir(dir)) != nullptr)\<close>.\<close>

fun scan_entries :: "filesystem \<Rightarrow> usage \<Rightarrow> string \<Rightarrow> string list \<Rightarrow> walk \<Rightarrow> walk" where
  "scan_entries fs arguments cur_dir [] w = w"
| "scan_entries fs arguments cur_dir (relative_path # entries) w =
     scan_entries fs arguments cur_dir entries
       (visit_entry fs arguments cur_dir relative_path w)"

text \<open>
  One turn of the outer loop \<^verbatim>\<open>while (!queue.empty())\<close>, after \<^verbatim>\<open>queue.front()\<close> and
  \<^verbatim>\<open>queue.pop()\<close> have taken \<open>cur_dir\<close> from the queue.
\<close>

definition find_step :: "filesystem \<Rightarrow> usage \<Rightarrow> string \<Rightarrow> walk \<Rightarrow> walk" where
  "find_step fs arguments cur_dir w =
     (case opendir fs cur_dir of
        None \<Rightarrow> w\<lparr>errlog := errlog w @ [''opendir'']\<rparr>
      | Some entries \<Rightarrow> scan_entries fs arguments cur_dir entries w)"

text \<open>
  The outer loop need not end (nothing detects a cycle), so it runs on fuel: the state
  after at most \<open>fuel\<close> turns. The loop has ended when the queue of that state is empty.
\<close>

fun find_loop :: "nat \<Rightarrow> filesystem \<Rightarrow> usage \<Rightarrow> walk \<Rightarrow> walk" where
  "find_loop 0 fs arguments w = w"
| "find_loop (Suc fuel) fs arguments w =
     (case queue w of
        [] \<Rightarrow> w
      | cur_dir # rest \<Rightarrow>
          find_loop fuel fs arguments (find_step fs arguments cur_dir (w\<lparr>queue := rest\<rparr>)))"

text \<open>
  \<^verbatim>\<open>void find(const usage& arguments, std::vector<std::string>& result)\<close>, called
  \<open>find_walk\<close> here: \<open>None\<close> when the fuel did not suffice.
\<close>

definition find_start :: "usage \<Rightarrow> string list \<Rightarrow> walk" where
  "find_start arguments res = \<lparr>queue = [path arguments], result = res, errlog = []\<rparr>"

definition find_walk :: "nat \<Rightarrow> filesystem \<Rightarrow> usage \<Rightarrow> string list \<Rightarrow> walk option" where
  "find_walk fuel fs arguments res =
     (let w = find_loop fuel fs arguments (find_start arguments res)
      in if queue w = [] then Some w else None)"

section \<open>The executor\<close>

text \<open>
  The child's loop \<^verbatim>\<open>for (auto& file : result) args.push_back(&(file[0]))\<close> and the
  \<^verbatim>\<open>args.emplace_back(nullptr)\<close> after it; the null pointer is \<open>None\<close>.
\<close>

fun push_files :: "string list \<Rightarrow> string option list \<Rightarrow> string option list" where
  "push_files [] args = args"
| "push_files (file # files) args = push_files files (args @ [Some file])"

definition child_args :: "string list \<Rightarrow> string option list" where
  "child_args res = push_files res [] @ [None]"

text \<open>What \<^verbatim>\<open>fork\<close> returned, and what a \<^verbatim>\<open>waitpid\<close> call reported.\<close>

datatype fork_result = Fork_failed | In_child | In_parent

datatype wait_status =
  Wait_failed | Exited nat | Signaled nat | Stopped nat | Continued | Other_status

fun show_nat :: "nat \<Rightarrow> string" where
  "show_nat n =
     (if n < 10 then [char_of (48 + n)] else show_nat (n div 10) @ [char_of (48 + n mod 10)])"

declare show_nat.simps [simp del]

text \<open>
  How \<^verbatim>\<open>execute\<close> ends: in \<^verbatim>\<open>exit(EXIT_FAILURE)\<close> after \<^verbatim>\<open>perror\<close>, in the child's
  \<^verbatim>\<open>execv(filepath.data(), args.data())\<close>, in a return to \<^verbatim>\<open>main\<close> with the lines the
  parent printed, or blocked in \<^verbatim>\<open>waitpid\<close> when the child reports nothing more.
\<close>

datatype exec_result =
    Exec_exit_failure "string list" string
  | Execv string "string option list"
  | Exec_returned "string list"
  | Exec_blocked "string list"

text \<open>The parent's \<^verbatim>\<open>do ... while (!WIFEXITED(status) && !WIFSIGNALED(status))\<close>.\<close>

fun wait_loop :: "wait_status list \<Rightarrow> string list \<Rightarrow> exec_result" where
  "wait_loop [] out = Exec_blocked out"
| "wait_loop (Wait_failed # ws) out = Exec_exit_failure out ''waitpid''"
| "wait_loop (Exited n # ws) out =
     Exec_returned (out @ [''Normal exited, status = '' @ show_nat n])"
| "wait_loop (Signaled n # ws) out =
     Exec_returned (out @ [''Was killed by signal '' @ show_nat n])"
| "wait_loop (Stopped n # ws) out =
     wait_loop ws (out @ [''Was stopped by signal '' @ show_nat n])"
| "wait_loop (Continued # ws) out = wait_loop ws (out @ [''Was continued''])"
| "wait_loop (Other_status # ws) out = wait_loop ws out"

text \<open>\<^verbatim>\<open>void execute(std::string& filepath, std::vector<std::string>& result)\<close>\<close>

definition execute ::
  "fork_result \<Rightarrow> wait_status list \<Rightarrow> string \<Rightarrow> string list \<Rightarrow> exec_result" where
  "execute pid ws filepath res =
     (case pid of
        Fork_failed \<Rightarrow> Exec_exit_failure [] ''fork''
      | In_child \<Rightarrow> Execv filepath (child_args res)
      | In_parent \<Rightarrow> wait_loop ws [])"

section \<open>The driver\<close>

definition help_text :: string where
  "help_text =
     ''Usage:'' @ [CHR 0x0A, CHR 0x09] @ ''path [options] - find files by path with options.'' @
     [CHR 0x0A, CHR 0x0A, CHR 0x09] @ ''Options:'' @
     [CHR 0x0A, CHR 0x09, CHR 0x09] @ ''-inum inum - inode number;'' @
     [CHR 0x0A, CHR 0x09, CHR 0x09] @ ''-name name - file name;'' @
     [CHR 0x0A, CHR 0x09, CHR 0x09] @ ''-size [-=+]size - file's size(less, equal, more);'' @
     [CHR 0x0A, CHR 0x09, CHR 0x09] @ ''-nlinks num - file's hardlinks;'' @
     [CHR 0x0A, CHR 0x09, CHR 0x09] @ ''-exec path - file to execute;'' @ [CHR 0x0A]"

text \<open>
  What the process does around the program: the file system, the fuel of the traversal,
  the indeterminate members of the fresh \<^verbatim>\<open>usage\<close>, and the answers of \<^verbatim>\<open>fork\<close> and
  \<^verbatim>\<open>waitpid\<close>.
\<close>

record env =
  files :: filesystem
  fuel :: nat
  garbage :: indeterminate
  fork_answer :: fork_result
  wait_answers :: "wait_status list"

text \<open>
  How the process ends, with the lines written to standard output (each \<^verbatim>\<open><< std::endl\<close>
  or \<^verbatim>\<open>printf\<close> is one line) and to standard error:
  \<^item> \<open>Returned\<close>: \<^verbatim>\<open>return 0\<close> from \<^verbatim>\<open>main\<close>, with the final \<^verbatim>\<open>result\<close> vector;
  \<^item> \<open>Exit_failure\<close>: \<^verbatim>\<open>exit(EXIT_FAILURE)\<close>, with \<^verbatim>\<open>result\<close> as it is then
    (\<open>None\<close>: \<^verbatim>\<open>find\<close> has not been called);
  \<^item> \<open>Uncaught\<close>: an exception inside \<^verbatim>\<open>parse_arguments\<close>, which nothing catches
    (\<^verbatim>\<open>std::terminate\<close> ends the process there), or undefined behaviour there, which the
    model takes as the end of the process too;
  \<^item> \<open>Replaced\<close>: the child process calls \<^verbatim>\<open>execv\<close> with these arguments;
  \<^item> \<open>Unfinished\<close>: the fuel of the traversal ran out, or the parent is blocked in
    \<^verbatim>\<open>waitpid\<close>.
\<close>

datatype outcome =
    Returned "string list" "string list" "string list"
  | Exit_failure "string list" "string list" "string list option"
  | Uncaught failure "string list"
  | Replaced string "string option list" "string list" "string list"
  | Unfinished

text \<open>\<^verbatim>\<open>int main(int argc, char* argv[])\<close>\<close>

definition main :: "env \<Rightarrow> string list \<Rightarrow> outcome" where
  "main e argv =
     (let out = [help_text];
          out = (if length argv \<le> 1 then out @ [''Wrong usage, see help''] else out)
      in case parse_arguments (garbage e) argv globals_init of
           Inl f \<Rightarrow> Uncaught f out
         | Inr (arguments, g) \<Rightarrow>
             if \<not> ok g then Exit_failure out [reason g @ '', see help''] None
             else
               (case find_walk (fuel e) (files e) arguments [] of
                  None \<Rightarrow> Unfinished
                | Some w \<Rightarrow>
                    (let out = out @ result w in
                     if needs_exec arguments \<noteq> 0 then
                       (case execute (fork_answer e) (wait_answers e)
                               (exec_path arguments) (result w) of
                          Exec_exit_failure lines what \<Rightarrow>
                            Exit_failure (out @ lines) (errlog w @ [what]) (Some (result w))
                        | Execv filepath args \<Rightarrow> Replaced filepath args out (errlog w)
                        | Exec_returned lines \<Rightarrow> Returned (out @ lines) (errlog w) (result w)
                        | Exec_blocked lines \<Rightarrow> Unfinished)
                     else Returned out (errlog w) (result w))))"

text \<open>Whether \<^verbatim>\<open>main\<close> got as far as calling \<^verbatim>\<open>find\<close>.\<close>

fun reached_find :: "outcome \<Rightarrow> bool" where
  "reached_find (Returned out err res) = True"
| "reached_find (Exit_failure out err res) = (res \<noteq> None)"
| "reached_find (Uncaught f out) = False"
| "reached_find (Replaced filepath args out err) = True"
| "reached_find Unfinished = True"

section \<open>Notions used to state the properties\<close>

text \<open>The five flags that \<^verbatim>\<open>parse_arguments\<close> compares \<^verbatim>\<open>option\<close> with.\<close>

definition known_options :: "string list" where
  "known_options = [''-inum'', ''-name'', ''-size'', ''-nlinks'', ''-exec'']"







text \<open>What \<^verbatim>\<open>lstat\<close> says about a path: a directory, or something that is not one.\<close>

definition is_directory :: "filesystem \<Rightarrow> string \<Rightarrow> bool" where
  "is_directory fs p = (case lstat fs p of None \<Rightarrow> False | Some sb \<Rightarrow> S_ISDIR (st_mode sb))"

definition non_directory :: "filesystem \<Rightarrow> string \<Rightarrow> bool" where
  "non_directory fs p =
     (case lstat fs p of None \<Rightarrow> False | Some sb \<Rightarrow> \<not> S_ISDIR (st_mode sb))"

text \<open>
  The directories the walk gets to from \<open>root\<close>: the root itself, and every child that
  \<^verbatim>\<open>lstat\<close> calls a directory of a directory the walk gets to and can list.
\<close>

inductive expands :: "filesystem \<Rightarrow> string \<Rightarrow> string \<Rightarrow> bool" for fs root where
  start: "expands fs root root"
| child: "expands fs root d \<Longrightarrow> opendir fs d = Some es \<Longrightarrow> e \<in> set es \<Longrightarrow>
          e \<noteq> ''.'' \<Longrightarrow> e \<noteq> ''..'' \<Longrightarrow> lstat fs (join_path d e) = Some sb \<Longrightarrow>
          S_ISDIR (st_mode sb) \<Longrightarrow> expands fs root (join_path d e)"

code_pred expands .

text \<open>A later state of the walk keeps what an earlier one held, in order.\<close>

definition extends :: "walk \<Rightarrow> walk \<Rightarrow> bool" where
  "extends w w' =
     ((\<exists>qs. queue w' = queue w @ qs) \<and> (\<exists>rs. result w' = result w @ rs) \<and>
      (\<exists>ls. errlog w' = errlog w @ ls))"

text \<open>
  The invariant of the outer loop for a directory \<open>d\<close> that has been expanded, with \<open>D\<close>
  the set of expanded directories: every child of \<open>d\<close> whose metadata could be read is
  queued or expanded when it is a directory, and is in the result when it is not one and
  passes \<open>check\<close>.
\<close>

definition covered :: "filesystem \<Rightarrow> usage \<Rightarrow> string set \<Rightarrow> walk \<Rightarrow> string \<Rightarrow> bool" where
  "covered fs a D w d =
     (\<forall>es e sb. opendir fs d = Some es \<longrightarrow> e \<in> set es \<longrightarrow> e \<noteq> ''.'' \<longrightarrow> e \<noteq> ''..'' \<longrightarrow>
        lstat fs (join_path d e) = Some sb \<longrightarrow>
        (if S_ISDIR (st_mode sb) then join_path d e \<in> set (queue w) \<union> D
         else check a sb e \<longrightarrow> join_path d e \<in> set (result w)))"

text \<open>
  A file system without cycles: every directory has a height, and a child that \<^verbatim>\<open>lstat\<close>
  calls a directory lies lower than the directory that lists it.
\<close>

definition ranked :: "filesystem \<Rightarrow> (string \<Rightarrow> nat) \<Rightarrow> bool" where
  "ranked fs height =
     (\<forall>d es e sb. opendir fs d = Some es \<longrightarrow> e \<in> set es \<longrightarrow> e \<noteq> ''.'' \<longrightarrow> e \<noteq> ''..'' \<longrightarrow>
        lstat fs (join_path d e) = Some sb \<longrightarrow> S_ISDIR (st_mode sb) \<longrightarrow>
        height (join_path d e) < height d)"

section \<open>Concrete inputs\<close>

definition zero_garbage :: indeterminate where
  "zero_garbage = \<lparr>any_inum = 0, any_size = 0, any_nlinks = 0\<rparr>"

text \<open>
  The tree of the specification's end-to-end scenario: \<^verbatim>\<open>root\<close> holds \<^verbatim>\<open>a.txt\<close> (50
  bytes) and \<^verbatim>\<open>sub\<close>, which holds \<^verbatim>\<open>b.txt\<close> (150 bytes); in addition a directory
  \<^verbatim>\<open>locked\<close> that cannot be opened and an entry \<^verbatim>\<open>gone\<close> whose \<^verbatim>\<open>lstat\<close> fails. The
  modes are \<^verbatim>\<open>S_IFREG | 0644\<close> and \<^verbatim>\<open>S_IFDIR | 0755\<close>.
\<close>

definition file_50 :: stat where
  "file_50 = \<lparr>st_ino = 41, st_mode = 33188, st_nlink = 1, st_size = 50\<rparr>"

definition file_150 :: stat where
  "file_150 = \<lparr>st_ino = 42, st_mode = 33188, st_nlink = 1, st_size = 150\<rparr>"

definition a_directory :: "ino_t \<Rightarrow> stat" where
  "a_directory i = \<lparr>st_ino = i, st_mode = 16877, st_nlink = 2, st_size = 4096\<rparr>"

definition example_fs :: filesystem where
  "example_fs =
     \<lparr>opendir = (\<lambda>p.
        if p = ''root'' then Some [''.'', ''..'', ''a.txt'', ''locked'', ''gone'', ''sub'']
        else if p = ''root/sub'' then Some [''.'', ''..'', ''b.txt'']
        else None),
      lstat = (\<lambda>p.
        if p = ''root/a.txt'' then Some file_50
        else if p = ''root/locked'' then Some (a_directory 43)
        else if p = ''root/sub'' then Some (a_directory 44)
        else if p = ''root/sub/b.txt'' then Some file_150
        else None)\<rparr>"

text \<open>In the example \<^verbatim>\<open>root\<close> lies above everything else.\<close>

definition example_height :: "string \<Rightarrow> nat" where
  "example_height p = (if p = ''root'' then 1 else 0)"

definition example_env :: env where
  "example_env =
     \<lparr>files = example_fs, fuel = 10, garbage = zero_garbage, fork_answer = In_child,
      wait_answers = []\<rparr>"

text \<open>The configuration after \<^verbatim>\<open>arguments.path = argv[1]\<close> for the root \<^verbatim>\<open>root\<close>.\<close>

definition root_only :: usage where
  "root_only = (usage_default zero_garbage)\<lparr>path := ''root''\<rparr>"

section \<open>Evaluating the model on concrete inputs\<close>

lemma find_loop_numeral:
  "find_loop (numeral k) fs a w =
     (case queue w of
        [] \<Rightarrow> w
      | cur_dir # rest \<Rightarrow>
          find_loop (pred_numeral k) fs a (find_step fs a cur_dir (w\<lparr>queue := rest\<rparr>)))"
  by (simp add: numeral_eq_Suc)

lemmas stoul_eval = stoul_def isspace_def isdigit_def digit_value_def ULONG_MAX_def

lemmas parse_eval = parse_arguments_def parse_loop.simps parse_pair_def argv_at_def
  usage_default_def globals_init_def zero_garbage_def root_only_def

lemmas walk_eval = find_walk_def find_start_def find_step_def visit_entry_def join_path_def
  find_loop_numeral example_fs_def file_50_def file_150_def a_directory_def S_ISDIR_def
  check_def NOSIZE_def Let_def

section \<open>Properties of the predicate matcher\<close>

lemma unat_eq_conv: "(unat (v :: 64 word) = unat w) = (v = w)"
  by (simp add: word_unat_eq_iff)

lemma sint_eq_conv: "(sint (v :: 64 word) = sint w) = (v = w)"
  by (auto intro: signed_word_eqI)

lemma check_iff:
  "check a sb nm \<longleftrightarrow>
     (needs_nlinks a \<noteq> 0 \<longrightarrow> nlinks a = st_nlink sb) \<and>
     (needs_name a \<noteq> 0 \<longrightarrow> name a = nm) \<and>
     (needs_inum a \<noteq> 0 \<longrightarrow> inum a = st_ino sb) \<and>
     (size_sign a = - 1 \<longrightarrow> st_size sb <s size' a) \<and>
     (size_sign a = 0 \<longrightarrow> st_size sb = size' a) \<and>
     (size_sign a = 1 \<longrightarrow> size' a <s st_size sb)"
  by (auto simp: check_def NOSIZE_def Let_def)

lemma check_refines: "check a sb nm = satisfies_active a sb nm"
  unfolding check_iff
  by (auto simp: satisfies_active_def nlinks_filter_def name_filter_def inum_filter_def
      size_filter_def word_sless_alt unat_eq_conv sint_eq_conv)

text \<open>
  C1. For every filter configuration, every metadata and every base name, \<open>check\<close>
  returns true exactly when the entry satisfies every configured filter. A filter that
  is not configured is not consulted: neither the value stored for it nor the attribute
  of the entry it would constrain changes the result. With no filter configured, every
  entry matches.
\<close>

theorem check_all_active_filters:
  "(check a sb nm \<longleftrightarrow> satisfies_active a sb nm) \<and>
   (needs_nlinks a = 0 \<longrightarrow>
      check (a\<lparr>nlinks := n\<rparr>) (sb\<lparr>st_nlink := n'\<rparr>) nm = check a sb nm) \<and>
   (needs_name a = 0 \<longrightarrow> check (a\<lparr>name := s\<rparr>) sb nm' = check a sb nm) \<and>
   (needs_inum a = 0 \<longrightarrow>
      check (a\<lparr>inum := i\<rparr>) (sb\<lparr>st_ino := i'\<rparr>) nm = check a sb nm) \<and>
   (size_sign a = NOSIZE \<longrightarrow>
      check (a\<lparr>size' := z\<rparr>) (sb\<lparr>st_size := z'\<rparr>) nm = check a sb nm) \<and>
   (needs_nlinks a = 0 \<and> needs_name a = 0 \<and> needs_inum a = 0 \<and> size_sign a = NOSIZE \<longrightarrow>
      check a sb nm)"
  unfolding check_refines [symmetric]
  by (simp add: check_iff NOSIZE_def)

theorem check_all_active_filters_witness:
  "needs_nlinks (usage_default zero_garbage) = 0 \<and>
   needs_name (usage_default zero_garbage) = 0 \<and>
   needs_inum (usage_default zero_garbage) = 0 \<and>
   size_sign (usage_default zero_garbage) = NOSIZE \<and>
   check (usage_default zero_garbage) file_150 ''b.txt'' \<and>
   satisfies_active (usage_default zero_garbage) file_150 ''b.txt'' \<and>
   check ((usage_default zero_garbage)\<lparr>inum := 7\<rparr>) (file_150\<lparr>st_ino := 9\<rparr>) ''b.txt''"
proof -
  have h: "needs_nlinks (usage_default zero_garbage) = 0 \<and>
      needs_name (usage_default zero_garbage) = 0 \<and>
      needs_inum (usage_default zero_garbage) = 0 \<and>
      size_sign (usage_default zero_garbage) = NOSIZE"
    by (simp add: usage_default_def)
  from h check_all_active_filters
    [where a = "usage_default zero_garbage" and sb = file_150 and nm = "''b.txt''"
       and i = 7 and i' = 9]
  show ?thesis by metis
qed


section \<open>Properties of the argument parser\<close>


lemma stoul_eq:
  assumes "dropWhile isspace str = s"
    and "(case s of [] \<Rightarrow> [] | c # cs \<Rightarrow> if c = CHR ''-'' \<or> c = CHR ''+'' then cs else s) = s'"
    and "takeWhile isdigit s' = ds"
  shows "stoul str =
     (if ds = [] then Inl Invalid_argument
      else if digits_value 0 ds > ULONG_MAX then Inl Out_of_range
      else Inr (if (case s of [] \<Rightarrow> False | c # _ \<Rightarrow> c = CHR ''-'')
                then - word_of_nat (digits_value 0 ds) else word_of_nat (digits_value 0 ds)))"
  unfolding stoul_def Let_def assms by (rule refl)


lemma stoul_minus_digits:
  assumes "ds \<noteq> []" and "\<forall>c \<in> set ds. isdigit c"
  shows "stoul (CHR ''-'' # ds) =
     (if digits_value 0 ds > ULONG_MAX then Inl Out_of_range
      else Inr (- word_of_nat (digits_value 0 ds)))"
proof -
  from assms(2) have tw: "takeWhile isdigit ds = ds" by (simp add: takeWhile_eq_all_conv)
  have 1: "dropWhile isspace (CHR ''-'' # ds) = CHR ''-'' # ds" by (simp add: isspace_def)
  have 2: "(case CHR ''-'' # ds of [] \<Rightarrow> []
            | c # cs \<Rightarrow> if c = CHR ''-'' \<or> c = CHR ''+'' then cs else CHR ''-'' # ds) = ds"
    by simp
  from stoul_eq [OF 1 2 tw] assms(1) show ?thesis by simp
qed

lemma takeWhile_isdigit_Nil: "\<forall>c \<in> set xs. \<not> isdigit c \<Longrightarrow> takeWhile isdigit xs = []"
  by (cases xs) simp_all

lemma skip_sign_subset:
  "set (case s of [] \<Rightarrow> [] | c # cs \<Rightarrow> if c = CHR ''-'' \<or> c = CHR ''+'' then cs else s) \<subseteq> set s"
  by (cases s) auto

lemma stoul_no_digit:
  assumes "\<forall>c \<in> set val. \<not> isdigit c"
  shows "stoul val = Inl Invalid_argument"
proof -
  let ?s = "dropWhile isspace val"
  let ?s' = "case ?s of [] \<Rightarrow> [] | c # cs \<Rightarrow> if c = CHR ''-'' \<or> c = CHR ''+'' then cs else ?s"
  have "set ?s' \<subseteq> set ?s" by (rule skip_sign_subset)
  moreover have "set ?s \<subseteq> set val" by (auto dest: set_dropWhileD)
  ultimately have "\<forall>c \<in> set ?s'. \<not> isdigit c"
    using assms by blast
  then have "takeWhile isdigit ?s' = []" by (rule takeWhile_isdigit_Nil)
  from stoul_eq [OF refl refl this] show ?thesis by simp
qed




lemma of_nat_2p64: "(word_of_nat (2 ^ 64) :: 64 word) = 0"
  by simp

lemma neg_of_nat_64:
  assumes "n \<le> 2 ^ 64"
  shows "(- word_of_nat n :: 64 word) = word_of_nat (2 ^ 64 - n)"
proof -
  from assms have "(word_of_nat (2 ^ 64 - n) :: 64 word) + word_of_nat n = word_of_nat (2 ^ 64)"
    by (simp flip: of_nat_add)
  then have "(word_of_nat (2 ^ 64 - n) :: 64 word) + word_of_nat n = 0"
    by (simp only: of_nat_2p64)
  then show ?thesis by (metis neg_eq_iff_add_eq_0 add.commute)
qed

lemma unat_neg_of_nat:
  "n \<le> ULONG_MAX \<Longrightarrow> unat (- word_of_nat n :: 64 word) = (2 ^ 64 - n) mod 2 ^ 64"
proof -
  assume "n \<le> ULONG_MAX"
  then have "n \<le> 2 ^ 64" by (simp add: ULONG_MAX_def)
  then have "(- word_of_nat n :: 64 word) = word_of_nat (2 ^ 64 - n)" by (rule neg_of_nat_64)
  then have "unat (- word_of_nat n :: 64 word) = (2 ^ 64 - n) mod 2 ^ LENGTH(64)"
    by (simp only: unat_of_nat)
  then show ?thesis by simp
qed

lemma argv_at_append_left: "i < length pre \<Longrightarrow> argv_at (pre @ rest) i = argv_at pre i"
  by (simp add: argv_at_def nth_append)

lemma parse_loop_end: "length argv \<le> i \<Longrightarrow> parse_loop argv i a g = Inr (a, g)"
  by (simp add: parse_loop.simps)

lemma parse_loop_odd: "Suc i = length argv \<Longrightarrow> parse_loop argv i a g = Inl Null_string"
  by (subst parse_loop.simps) (simp add: argv_at_def)

lemma parse_loop_pair:
  "Suc i < length argv \<Longrightarrow>
   parse_loop argv i a g =
     (case parse_pair (argv ! i) (argv ! Suc i) a g of
        Continue a' \<Rightarrow> parse_loop argv (i + 2) a' g
      | Return a' g' \<Rightarrow> Inr (a', g')
      | Throw e \<Rightarrow> Inl e)"
  by (subst parse_loop.simps) (simp add: argv_at_def)

lemma parse_pair_unknown:
  "opt \<notin> set known_options \<Longrightarrow>
   parse_pair opt val a g = Return a (g\<lparr>ok := False, reason := ''Unknown option''\<rparr>)"
  by (simp add: parse_pair_def known_options_def)

lemma parse_pair_Return_not_ok: "parse_pair opt val a g = Return a' g' \<Longrightarrow> \<not> ok g'"
  by (auto simp: parse_pair_def split: if_splits sum.splits option.splits)

text \<open>ok is never set to True\<close>
lemma parse_loop_ok: "parse_loop argv i a g = Inr (a', g') \<Longrightarrow> ok g' \<Longrightarrow> g' = g"
proof (induction argv i a g rule: parse_loop.induct)
  case (1 argv i arguments g)
  consider "length argv \<le> i" | "Suc i = length argv" | "Suc i < length argv" by linarith
  then show ?case
  proof cases
    case 1
    with "1.prems" show ?thesis by (simp add: parse_loop_end)
  next
    case 2
    with "1.prems" show ?thesis by (simp add: parse_loop_odd)
  next
    case 3
    then have at: "argv_at argv i = Some (argv ! i)" "argv_at argv (i + 1) = Some (argv ! Suc i)"
      by (simp_all add: argv_at_def)
    show ?thesis
    proof (cases "parse_pair (argv ! i) (argv ! Suc i) arguments g")
      case (Continue a1)
      with "1.prems" 3 have "parse_loop argv (i + 2) a1 g = Inr (a', g')"
        by (simp add: parse_loop_pair)
      with "1.IH" [OF _ at(1) at(2) Continue] 3 "1.prems"(2) show ?thesis by simp
    next
      case (Return a1 g1)
      with "1.prems" 3 parse_pair_Return_not_ok [OF Return] show ?thesis
        by (simp add: parse_loop_pair)
    next
      case (Throw e)
      with "1.prems" 3 show ?thesis by (simp add: parse_loop_pair)
    qed
  qed
qed

lemma parse_loop_append:
  "parse_loop pre i a g = Inr (a', g') \<Longrightarrow> ok g' \<Longrightarrow> even (length pre - i) \<Longrightarrow> i \<le> length pre \<Longrightarrow>
   parse_loop (pre @ rest) i a g = parse_loop (pre @ rest) (length pre) a' g"
proof (induction pre i a g rule: parse_loop.induct)
  case (1 argv i arguments g)
  consider "length argv = i" | "Suc i = length argv" | "Suc i < length argv"
    using "1.prems"(4) by linarith
  then show ?case
  proof cases
    case 1
    with "1.prems" show ?thesis by (simp add: parse_loop_end)
  next
    case 2
    with "1.prems" show ?thesis by (simp add: parse_loop_odd)
  next
    case 3
    then have at: "argv_at argv i = Some (argv ! i)" "argv_at argv (i + 1) = Some (argv ! Suc i)"
      by (simp_all add: argv_at_def)
    from 3 have nth: "(argv @ rest) ! i = argv ! i" "(argv @ rest) ! Suc i = argv ! Suc i"
      by (simp_all add: nth_append)
    from 3 have len: "Suc i < length (argv @ rest)" by simp
    show ?thesis
    proof (cases "parse_pair (argv ! i) (argv ! Suc i) arguments g")
      case (Continue a1)
      with "1.prems" 3 have r: "parse_loop argv (i + 2) a1 g = Inr (a', g')"
        by (simp add: parse_loop_pair)
      from "1.prems"(3) 3 have ev: "even (length argv - (i + 2))" by auto
      have "parse_loop (argv @ rest) (i + 2) a1 g = parse_loop (argv @ rest) (length argv) a' g"
        using "1.IH" [OF _ at(1) at(2) Continue r "1.prems"(2) ev] 3 by simp
      then show ?thesis
        by (simp add: parse_loop_pair [OF len] nth Continue)
    next
      case (Return a1 g1)
      with "1.prems" 3 parse_pair_Return_not_ok [OF Return] show ?thesis
        by (simp add: parse_loop_pair)
    next
      case (Throw e)
      with "1.prems" 3 show ?thesis by (simp add: parse_loop_pair)
    qed
  qed
qed


lemma parse_arguments_append:
  assumes "parse_arguments j pre g0 = Inr (a, g)" and "ok g" and "even (length pre)"
  shows "parse_arguments j (pre @ rest) g0 = parse_loop (pre @ rest) (length pre) a g0"
proof -
  from assms(1) obtain p where p: "argv_at pre 1 = Some p"
    and l: "parse_loop pre 2 ((usage_default j)\<lparr>path := p\<rparr>) g0 = Inr (a, g)"
    by (auto simp: parse_arguments_def split: option.splits)
  from p have len: "2 \<le> length pre" by (auto simp: argv_at_def split: if_splits)
  with assms(3) have ev: "even (length pre - 2)" by simp
  from len p have "argv_at (pre @ rest) 1 = Some p" by (simp add: argv_at_append_left)
  with parse_loop_append [OF l assms(2) ev len, of rest] show ?thesis
    by (simp add: parse_arguments_def)
qed

lemma parse_arguments_ok_globals:
  "parse_arguments j argv g0 = Inr (a, g) \<Longrightarrow> ok g \<Longrightarrow> g = g0"
  by (auto simp: parse_arguments_def split: option.splits dest: parse_loop_ok)

lemma parse_loop_at_pair:
  "parse_loop (pre @ flag # val # rest) (length pre) a g =
     (case parse_pair flag val a g of
        Continue a' \<Rightarrow> parse_loop (pre @ flag # val # rest) (length pre + 2) a' g
      | Return a' g' \<Rightarrow> Inr (a', g')
      | Throw e \<Rightarrow> Inl e)"
  by (subst parse_loop_pair) (simp_all add: nth_append)

lemma parse_loop_last_pair:
  "parse_loop (pre @ [flag, val]) (length pre) a g =
     (case parse_pair flag val a g of
        Continue a' \<Rightarrow> Inr (a', g)
      | Return a' g' \<Rightarrow> Inr (a', g')
      | Throw e \<Rightarrow> Inl e)"
  by (simp add: parse_loop_at_pair parse_loop_end split: step.splits)

lemma parse_loop_unknown_somewhere:
  "i \<le> k \<Longrightarrow> even (k - i) \<Longrightarrow> k < length argv \<Longrightarrow> argv ! k \<notin> set known_options \<Longrightarrow>
   (case parse_loop argv i a g of Inl f \<Rightarrow> True | Inr (a', g') \<Rightarrow> \<not> ok g')"
proof (induction argv i a g rule: parse_loop.induct)
  case (1 argv i arguments g)
  show ?case
  proof (cases "Suc i < length argv")
    case False
    with "1.prems" have "Suc i = length argv" by linarith
    then show ?thesis by (simp add: parse_loop_odd)
  next
    case True
    then have at: "argv_at argv i = Some (argv ! i)" "argv_at argv (i + 1) = Some (argv ! Suc i)"
      by (simp_all add: argv_at_def)
    show ?thesis
    proof (cases "parse_pair (argv ! i) (argv ! Suc i) arguments g")
      case (Continue a1)
      have "i \<noteq> k"
        using Continue parse_pair_unknown [of "argv ! i" "argv ! Suc i" arguments g] "1.prems"(4)
        by auto
      with "1.prems"(1,2) have "i + 2 \<le> k \<and> even (k - (i + 2))"
        by presburger
      then have "i + 2 \<le> k" "even (k - (i + 2))" by blast+
      from "1.IH" [OF _ at Continue this(1) this(2) "1.prems"(3,4)] True Continue
      show ?thesis by (simp add: parse_loop_pair)
    next
      case (Return a1 g1)
      with True parse_pair_Return_not_ok [OF Return] show ?thesis
        by (simp add: parse_loop_pair)
    next
      case (Throw e)
      with True show ?thesis by (simp add: parse_loop_pair)
    qed
  qed
qed

lemma main_Inl:
  "parse_arguments (garbage e) argv globals_init = Inl f \<Longrightarrow>
   main e argv =
     Uncaught f (if length argv \<le> 1 then [help_text, ''Wrong usage, see help''] else [help_text])"
  by (simp add: main_def)

lemma main_not_ok:
  "parse_arguments (garbage e) argv globals_init = Inr (a, g) \<Longrightarrow> \<not> ok g \<Longrightarrow>
   main e argv =
     Exit_failure (if length argv \<le> 1 then [help_text, ''Wrong usage, see help''] else [help_text])
       [reason g @ '', see help''] None"
  by (simp add: main_def)

lemma main_unknown_somewhere:
  assumes "2 \<le> k" and "even k" and "k < length argv" and "argv ! k \<notin> set known_options"
  shows "\<not> reached_find (main e argv)"
proof -
  from assms(1,3) have p: "argv_at argv 1 = Some (argv ! 1)" by (simp add: argv_at_def)
  from assms(1,2) have ev: "even (k - 2)" by simp
  let ?a = "(usage_default (garbage e))\<lparr>path := argv ! 1\<rparr>"
  have pa: "parse_arguments (garbage e) argv globals_init = parse_loop argv 2 ?a globals_init"
    using p by (simp add: parse_arguments_def)
  show ?thesis
  proof (cases "parse_loop argv 2 ?a globals_init")
    case (Inl f)
    with pa main_Inl [of e argv f] show ?thesis by simp
  next
    case (Inr r)
    obtain a' g' where r: "r = (a', g')" by (cases r)
    from parse_loop_unknown_somewhere [OF assms(1) ev assms(3,4), of ?a globals_init] Inr r
    have "\<not> ok g'" by simp
    with pa Inr r main_not_ok [of e argv a' g'] show ?thesis by simp
  qed
qed



lemma parse_pair_negative:
  "stoul val = Inr n \<Longrightarrow>
   parse_pair ''-inum'' val a g = Continue (a\<lparr>needs_inum := 1, inum := n\<rparr>) \<and>
   parse_pair ''-nlinks'' val a g = Continue (a\<lparr>needs_nlinks := 1, nlinks := n\<rparr>)"
  by (simp add: parse_pair_def)











text \<open>
  C5. When every pair before it has been parsed with success, a flag other than the
  five known ones that is followed by a value makes \<^verbatim>\<open>parse_arguments\<close> return with
  \<^verbatim>\<open>ok = false\<close> and the reason \<^verbatim>\<open>Unknown option\<close>, and \<^verbatim>\<open>main\<close> writes that reason to
  standard error and ends in \<^verbatim>\<open>exit(EXIT_FAILURE)\<close> with the help text alone on standard
  output. Whatever stands before it, a command line with such a flag and its value at a
  flag position never gets as far as \<^verbatim>\<open>find\<close>; the failure reported is that of the first
  pair that fails.
\<close>

theorem unknown_option_fails:
  "(parse_arguments (garbage e) pre globals_init = Inr (a, g) \<and> ok g \<and> even (length pre) \<and>
    flag \<notin> set known_options \<longrightarrow>
      parse_arguments (garbage e) (pre @ flag # val # rest) globals_init =
        Inr (a, \<lparr>ok = False, reason = ''Unknown option''\<rparr>) \<and>
      main e (pre @ flag # val # rest) =
        Exit_failure [help_text] [''Unknown option, see help''] None) \<and>
   (2 \<le> k \<and> even k \<and> Suc k < length argv \<and> argv ! k \<notin> set known_options \<longrightarrow>
      \<not> reached_find (main e argv))"
proof -
  have 1: "parse_arguments (garbage e) (pre @ flag # val # rest) globals_init =
        Inr (a, \<lparr>ok = False, reason = ''Unknown option''\<rparr>) \<and>
      main e (pre @ flag # val # rest) =
        Exit_failure [help_text] [''Unknown option, see help''] None"
    if p: "parse_arguments (garbage e) pre globals_init = Inr (a, g)" and g: "ok g"
      and ev: "even (length pre)" and u: "flag \<notin> set known_options"
  proof -
    have r: "parse_arguments (garbage e) (pre @ flag # val # rest) globals_init =
        Inr (a, \<lparr>ok = False, reason = ''Unknown option''\<rparr>)"
      unfolding parse_arguments_append [OF p g ev] parse_loop_at_pair parse_pair_unknown [OF u]
      by (simp add: globals_init_def)
    from main_not_ok [OF r] r show ?thesis by simp
  qed
  from 1 main_unknown_somewhere [of k argv e] Suc_lessD [of k "length argv"]
  show ?thesis by blast
qed


text \<open>
  C8. With one flag after the root and no value for it, the loop is entered with
  \<^verbatim>\<open>i = 2 < argc = 3\<close> and \<^verbatim>\<open>std::string value(argv[i + 1])\<close> is constructed from
  \<^verbatim>\<open>argv[argc]\<close>, the null pointer.
\<close>

theorem trailing_flag_reads_null:
  "parse_arguments j [prog, root, flag] g = Inl Null_string"
  by (simp add: parse_arguments_def argv_at_def parse_loop_odd)

text \<open>
  C9. With the name of the program alone, \<^verbatim>\<open>main\<close> prints the help text and the warning
  and calls \<^verbatim>\<open>parse_arguments\<close>, whose first statement assigns \<^verbatim>\<open>argv[1]\<close>, the null
  pointer, to a \<^verbatim>\<open>std::string\<close>: \<^verbatim>\<open>find\<close> is not reached.
\<close>

theorem no_arguments_reads_null:
  "main e [prog] = Uncaught Null_string [help_text, ''Wrong usage, see help''] \<and>
   \<not> reached_find (main e [prog])"
  by (simp add: main_def parse_arguments_def argv_at_def)

text \<open>
  C10. After pairs that have been parsed with success, a value of \<^verbatim>\<open>-inum\<close> or
  \<^verbatim>\<open>-nlinks\<close> that is a minus sign followed by digits denoting a number of at most
  \<^verbatim>\<open>ULONG_MAX\<close> is accepted, and the filter is set to the negation of that number in 64
  bits, that is \<open>(2 ^ 64 - n) mod 2 ^ 64\<close>.
\<close>

theorem negative_number_wraps:
  assumes "parse_arguments j pre globals_init = Inr (a, g)" and "ok g" and "even (length pre)"
    and "ds \<noteq> []" and "\<forall>c \<in> set ds. isdigit c" and "digits_value 0 ds \<le> ULONG_MAX"
  shows "parse_arguments j (pre @ [''-inum'', CHR ''-'' # ds]) globals_init =
      Inr (a\<lparr>needs_inum := 1, inum := - word_of_nat (digits_value 0 ds)\<rparr>, globals_init) \<and>
    parse_arguments j (pre @ [''-nlinks'', CHR ''-'' # ds]) globals_init =
      Inr (a\<lparr>needs_nlinks := 1, nlinks := - word_of_nat (digits_value 0 ds)\<rparr>, globals_init) \<and>
    unat (- word_of_nat (digits_value 0 ds) :: 64 word) = (2 ^ 64 - digits_value 0 ds) mod 2 ^ 64"
proof -
  from stoul_minus_digits [OF assms(4,5)] assms(6)
  have st: "stoul (CHR ''-'' # ds) = Inr (- word_of_nat (digits_value 0 ds))" by simp
  from parse_pair_negative [OF st] unat_neg_of_nat [OF assms(6)] show ?thesis
    by (simp add: parse_arguments_append [OF assms(1,2,3)] parse_loop_last_pair)
qed

section \<open>Properties of the tree walker\<close>

lemma visit_entry_cases:
  "visit_entry fs a d e w = w \<or>
   visit_entry fs a d e w = w\<lparr>errlog := errlog w @ [''lstat'']\<rparr> \<or>
   (is_directory fs (join_path d e) \<and>
    visit_entry fs a d e w = w\<lparr>queue := queue w @ [join_path d e]\<rparr>) \<or>
   (non_directory fs (join_path d e) \<and>
    visit_entry fs a d e w = w\<lparr>result := result w @ [join_path d e]\<rparr>)"
  by (simp add: visit_entry_def Let_def is_directory_def non_directory_def split: option.splits)

lemma visit_entry_result_nondir:
  "\<forall>p \<in> set (result w). non_directory fs p \<Longrightarrow>
   \<forall>p \<in> set (result (visit_entry fs a d e w)). non_directory fs p"
  using visit_entry_cases [of fs a d e w] by auto

lemma visit_entry_queue_dir:
  "\<forall>p \<in> set (queue w). p = r \<or> is_directory fs p \<Longrightarrow>
   \<forall>p \<in> set (queue (visit_entry fs a d e w)). p = r \<or> is_directory fs p"
  using visit_entry_cases [of fs a d e w] by auto

lemma scan_entries_result_nondir:
  "\<forall>p \<in> set (result w). non_directory fs p \<Longrightarrow>
   \<forall>p \<in> set (result (scan_entries fs a d es w)). non_directory fs p"
proof (induction es arbitrary: w)
  case Nil
  then show ?case by simp
next
  case (Cons e es)
  from Cons.IH [OF visit_entry_result_nondir [OF Cons.prems]] show ?case by simp
qed

lemma scan_entries_queue_dir:
  "\<forall>p \<in> set (queue w). p = r \<or> is_directory fs p \<Longrightarrow>
   \<forall>p \<in> set (queue (scan_entries fs a d es w)). p = r \<or> is_directory fs p"
proof (induction es arbitrary: w)
  case Nil
  then show ?case by simp
next
  case (Cons e es)
  from Cons.IH [OF visit_entry_queue_dir [OF Cons.prems]] show ?case by simp
qed

lemma extends_refl: "extends w w"
  by (simp add: extends_def)

lemma extends_trans: "extends w w' \<Longrightarrow> extends w' w'' \<Longrightarrow> extends w w''"
  by (auto simp: extends_def)

lemma visit_entry_extends: "extends w (visit_entry fs a d e w)"
  using visit_entry_cases [of fs a d e w] by (auto simp: extends_def)

lemma scan_entries_extends: "extends w (scan_entries fs a d es w)"
proof (induction es arbitrary: w)
  case Nil
  show ?case by (simp add: extends_refl)
next
  case (Cons e es)
  from extends_trans [OF visit_entry_extends Cons.IH] show ?case by simp
qed

lemma find_step_extends: "extends w (find_step fs a d w)"
  by (auto simp: find_step_def scan_entries_extends split: option.splits)
     (simp add: extends_def)

lemma find_loop_extends:
  "\<exists>rs ls. result (find_loop n fs a w) = result w @ rs \<and>
           errlog (find_loop n fs a w) = errlog w @ ls"
proof (induction n arbitrary: w)
  case 0
  show ?case by simp
next
  case (Suc n)
  show ?case
  proof (cases "queue w")
    case Nil
    then show ?thesis by simp
  next
    case (Cons d rest)
    from find_step_extends [of "w\<lparr>queue := rest\<rparr>" fs a d]
      Suc.IH [of "find_step fs a d (w\<lparr>queue := rest\<rparr>)"] Cons show ?thesis
      by (auto simp: extends_def)
  qed
qed


lemma find_step_result_nondir:
  "\<forall>p \<in> set (result w). non_directory fs p \<Longrightarrow>
   \<forall>p \<in> set (result (find_step fs a d w)). non_directory fs p"
  by (cases "opendir fs d") (simp_all add: find_step_def scan_entries_result_nondir)

lemma find_step_queue_dir:
  "\<forall>p \<in> set (queue w). p = r \<or> is_directory fs p \<Longrightarrow>
   \<forall>p \<in> set (queue (find_step fs a d w)). p = r \<or> is_directory fs p"
  by (cases "opendir fs d") (simp_all add: find_step_def scan_entries_queue_dir)

lemma find_loop_invariant:
  "\<forall>p \<in> set (result w). non_directory fs p \<Longrightarrow>
   \<forall>p \<in> set (queue w). p = r \<or> is_directory fs p \<Longrightarrow>
   (\<forall>p \<in> set (result (find_loop n fs a w)). non_directory fs p) \<and>
   (\<forall>p \<in> set (queue (find_loop n fs a w)). p = r \<or> is_directory fs p)"
proof (induction n arbitrary: w)
  case 0
  then show ?case by simp
next
  case (Suc n)
  show ?case
  proof (cases "queue w")
    case Nil
    with Suc.prems show ?thesis by simp
  next
    case (Cons d rest)
    let ?w = "w\<lparr>queue := rest\<rparr>"
    from Suc.prems Cons have r: "\<forall>p \<in> set (result ?w). non_directory fs p"
      and q: "\<forall>p \<in> set (queue ?w). p = r \<or> is_directory fs p" by simp_all
    from Suc.IH [OF find_step_result_nondir [OF r] find_step_queue_dir [OF q]] Cons
    show ?thesis by simp
  qed
qed

text \<open>
  C3. At every point of the traversal, whatever the file system and the filters, every
  path in \<^verbatim>\<open>result\<close> is one that \<^verbatim>\<open>lstat\<close> does not call a directory, and every queued
  path other than the root is one that \<^verbatim>\<open>lstat\<close> calls a directory. So it is for the
  result of a finished \<^verbatim>\<open>find\<close> and for the match list \<^verbatim>\<open>main\<close> returns with. An entry
  that \<^verbatim>\<open>lstat\<close> calls a directory is queued without the filters being looked at: the
  step is the same under any other configuration and leaves the result as it is.
\<close>

theorem matches_are_never_directories:
  "(\<forall>p \<in> set (result (find_loop n fs a (find_start a []))). non_directory fs p) \<and>
   (\<forall>p \<in> set (queue (find_loop n fs a (find_start a []))). p = path a \<or> is_directory fs p) \<and>
   (\<forall>w. find_walk n fs a [] = Some w \<longrightarrow> (\<forall>p \<in> set (result w). non_directory fs p)) \<and>
   (\<forall>out err res. main e argv = Returned out err res \<longrightarrow>
      (\<forall>p \<in> set res. non_directory (files e) p)) \<and>
   (lstat fs (join_path d x) = Some sb \<and> S_ISDIR (st_mode sb) \<longrightarrow>
      visit_entry fs a d x w = visit_entry fs a' d x w \<and>
      result (visit_entry fs a d x w) = result w)"
proof -
  have inv: "(\<forall>p \<in> set (result (find_loop n fs a (find_start a []))). non_directory fs p) \<and>
     (\<forall>p \<in> set (queue (find_loop n fs a (find_start a []))). p = path a \<or> is_directory fs p)"
    for n fs a
    by (rule find_loop_invariant) (simp_all add: find_start_def)
  have walk: "\<forall>p \<in> set (result w). non_directory fs p" if "find_walk n fs a [] = Some w"
    for n fs a w
    using that inv [of n fs a] by (auto simp: find_walk_def Let_def split: if_splits)
  have "\<forall>p \<in> set res. non_directory (files e) p" if "main e argv = Returned out err res"
    for out err res
    using that walk [of "fuel e" "files e"]
    by (auto simp: main_def Let_def split: sum.splits if_splits option.splits exec_result.splits)
  moreover have "visit_entry fs a d x w = visit_entry fs a' d x w \<and>
      result (visit_entry fs a d x w) = result w"
    if "lstat fs (join_path d x) = Some sb" "S_ISDIR (st_mode sb)"
    using that by (simp add: visit_entry_def)
  ultimately show ?thesis using inv walk by blast
qed

lemma extends_sets:
  "extends w w' \<Longrightarrow> set (queue w) \<subseteq> set (queue w') \<and> set (result w) \<subseteq> set (result w')"
  by (auto simp: extends_def)

lemma covered_mono:
  assumes c: "covered fs a D w d"
    and q: "set (queue w) \<union> D \<subseteq> set (queue w') \<union> D'"
    and r: "set (result w) \<subseteq> set (result w')"
  shows "covered fs a D' w' d"
  unfolding covered_def
proof (intro allI impI)
  fix es e sb
  assume h: "opendir fs d = Some es" "e \<in> set es" "e \<noteq> ''.''" "e \<noteq> ''..''"
    "lstat fs (join_path d e) = Some sb"
  from c h have "if S_ISDIR (st_mode sb) then join_path d e \<in> set (queue w) \<union> D
      else check a sb e \<longrightarrow> join_path d e \<in> set (result w)"
    unfolding covered_def by blast
  with q r show "if S_ISDIR (st_mode sb) then join_path d e \<in> set (queue w') \<union> D'
      else check a sb e \<longrightarrow> join_path d e \<in> set (result w')"
    by (auto split: if_splits)
qed

lemma visit_entry_covers:
  "e \<noteq> ''.'' \<Longrightarrow> e \<noteq> ''..'' \<Longrightarrow> lstat fs (join_path d e) = Some sb \<Longrightarrow>
   (if S_ISDIR (st_mode sb) then join_path d e \<in> set (queue (visit_entry fs a d e w))
    else check a sb e \<longrightarrow> join_path d e \<in> set (result (visit_entry fs a d e w)))"
  by (simp add: visit_entry_def Let_def)

lemma scan_entries_covers:
  "e \<in> set es \<Longrightarrow> e \<noteq> ''.'' \<Longrightarrow> e \<noteq> ''..'' \<Longrightarrow> lstat fs (join_path d e) = Some sb \<Longrightarrow>
   (if S_ISDIR (st_mode sb) then join_path d e \<in> set (queue (scan_entries fs a d es w))
    else check a sb e \<longrightarrow> join_path d e \<in> set (result (scan_entries fs a d es w)))"
proof (induction es arbitrary: w)
  case Nil
  then show ?case by simp
next
  case (Cons x es)
  show ?case
  proof (cases "e = x")
    case True
    from visit_entry_covers [OF Cons.prems(2,3,4), of a w]
      extends_sets [OF scan_entries_extends [of "visit_entry fs a d e w" fs a d es]]
    show ?thesis unfolding True by (auto split: if_splits)
  next
    case False
    with Cons.prems have "e \<in> set es" by simp
    from Cons.IH [OF this Cons.prems(2,3,4)] show ?thesis by simp
  qed
qed

lemma find_step_covers:
  "covered fs a D (find_step fs a d w) d"
proof (cases "opendir fs d")
  case None
  then show ?thesis by (simp add: covered_def)
next
  case (Some es)
  then show ?thesis
    unfolding covered_def find_step_def
    using scan_entries_covers [of _ es fs d _ a w] by (auto split: if_splits)
qed

lemma find_loop_covers:
  "\<forall>x \<in> D. covered fs a D w x \<Longrightarrow> queue (find_loop n fs a w) = [] \<Longrightarrow>
   \<exists>D'. D \<union> set (queue w) \<subseteq> D' \<and> (\<forall>x \<in> D'. covered fs a D' (find_loop n fs a w) x)"
proof (induction n arbitrary: w D)
  case 0
  then show ?case by auto
next
  case (Suc n)
  show ?case
  proof (cases "queue w")
    case Nil
    with Suc.prems show ?thesis by auto
  next
    case (Cons d rest)
    let ?w = "w\<lparr>queue := rest\<rparr>"
    let ?w1 = "find_step fs a d ?w"
    have ext: "set rest \<subseteq> set (queue ?w1)" "set (result w) \<subseteq> set (result ?w1)"
      using extends_sets [OF find_step_extends [of ?w fs a d]] by simp_all
    have "\<forall>x \<in> insert d D. covered fs a (insert d D) ?w1 x"
    proof
      fix x assume "x \<in> insert d D"
      then consider "x = d" | "x \<in> D" by auto
      then show "covered fs a (insert d D) ?w1 x"
      proof cases
        case 1
        then show ?thesis by (simp add: find_step_covers)
      next
        case 2
        with Suc.prems(1) have "covered fs a D w x" by simp
        then show ?thesis
          by (rule covered_mono) (use ext Cons in auto)
      qed
    qed
    moreover from Suc.prems(2) Cons have "queue (find_loop n fs a ?w1) = []" by simp
    ultimately obtain D' where D': "insert d D \<union> set (queue ?w1) \<subseteq> D'"
      "\<forall>x \<in> D'. covered fs a D' (find_loop n fs a ?w1) x"
      using Suc.IH [of "insert d D" ?w1] by blast
    from D'(1) ext(1) Cons have "D \<union> set (queue w) \<subseteq> D'" by auto
    with D'(2) Cons show ?thesis by auto
  qed
qed

lemma expands_in_closed:
  assumes "expands fs root d" and "root \<in> D" and "queue w = []"
    and "\<forall>x \<in> D. covered fs a D w x"
  shows "d \<in> D"
  using assms(1)
proof induction
  case start
  from assms(2) show ?case .
next
  case (child d es e sb)
  from assms(4) child.IH have "covered fs a D w d" by simp
  with child.hyps assms(3) show ?case
    unfolding covered_def by (metis Un_iff empty_iff empty_set)
qed

lemma find_walk_complete:
  assumes "find_walk n fs a res0 = Some w" and "expands fs (path a) d"
    and "opendir fs d = Some es" and "e \<in> set es" and "e \<noteq> ''.''" and "e \<noteq> ''..''"
    and "lstat fs (join_path d e) = Some sb" and "\<not> S_ISDIR (st_mode sb)" and "check a sb e"
  shows "join_path d e \<in> set (result w)"
proof -
  from assms(1) have w: "w = find_loop n fs a (find_start a res0)" and q: "queue w = []"
    by (auto simp: find_walk_def Let_def split: if_splits)
  from q w obtain D where D: "{} \<union> set (queue (find_start a res0)) \<subseteq> D"
    "\<forall>x \<in> D. covered fs a D w x"
    using find_loop_covers [of "{}" fs a "find_start a res0" n] by auto
  from D(1) have "path a \<in> D" by (simp add: find_start_def)
  from expands_in_closed [OF assms(2) this q D(2)] D(2) have "covered fs a D w d" by simp
  with assms(3-9) show ?thesis unfolding covered_def by metis
qed

lemma find_loop_empty: "queue w = [] \<Longrightarrow> find_loop k fs a w = w"
  by (cases k) simp_all

lemma find_loop_add: "find_loop (n + k) fs a w = find_loop k fs a (find_loop n fs a w)"
proof (induction n arbitrary: w)
  case 0
  show ?case by simp
next
  case (Suc n)
  show ?case
  proof (cases "queue w")
    case Nil
    then show ?thesis by (simp add: find_loop_empty)
  next
    case (Cons d rest)
    with Suc.IH show ?thesis by simp
  qed
qed

lemma find_loop_Suc_end:
  "find_loop (Suc n) fs a w = find_loop (Suc 0) fs a (find_loop n fs a w)"
  using find_loop_add [of n "Suc 0" fs a w] by (simp del: find_loop.simps)

lemma find_loop_turn:
  "queue (find_loop n fs a w) = d # rest \<Longrightarrow>
   find_loop (Suc n) fs a w = find_step fs a d ((find_loop n fs a w)\<lparr>queue := rest\<rparr>)"
  by (simp only: find_loop_Suc_end [of n]) simp

lemma rankedD:
  "ranked fs height \<Longrightarrow> opendir fs d = Some es \<Longrightarrow> e \<in> set es \<Longrightarrow> e \<noteq> ''.'' \<Longrightarrow>
   e \<noteq> ''..'' \<Longrightarrow> lstat fs (join_path d e) = Some sb \<Longrightarrow> S_ISDIR (st_mode sb) \<Longrightarrow>
   height (join_path d e) < height d"
  unfolding ranked_def by (elim allE impE) assumption+

lemma visit_entry_queue_height:
  assumes "ranked fs height" and "opendir fs d = Some es" and "e \<in> set es"
  shows "\<exists>new. queue (visit_entry fs a d e w) = queue w @ new \<and>
     (\<forall>p \<in> set new. height p < height d)"
proof (cases "e \<noteq> ''.'' \<and> e \<noteq> ''..'' \<and> is_directory fs (join_path d e)")
  case True
  then obtain sb where sb: "lstat fs (join_path d e) = Some sb" "S_ISDIR (st_mode sb)"
    by (auto simp: is_directory_def split: option.splits)
  from True have ne: "e \<noteq> ''.''" "e \<noteq> ''..''" by simp_all
  from rankedD [OF assms ne sb] have "height (join_path d e) < height d" .
  moreover from ne sb have "queue (visit_entry fs a d e w) = queue w @ [join_path d e]"
    by (simp add: visit_entry_def)
  ultimately show ?thesis by simp
next
  case False
  then have "queue (visit_entry fs a d e w) = queue w @ []"
    by (auto simp: visit_entry_def Let_def is_directory_def split: option.splits)
  then show ?thesis by (intro exI [of _ "[]"]) simp
qed

lemma scan_entries_queue_height:
  assumes "ranked fs height" and "opendir fs d = Some es0"
  shows "set es \<subseteq> set es0 \<Longrightarrow>
     \<exists>new. queue (scan_entries fs a d es w) = queue w @ new \<and>
       (\<forall>p \<in> set new. height p < height d)"
proof (induction es arbitrary: w)
  case Nil
  show ?case by simp
next
  case (Cons x es)
  from Cons.prems have x: "x \<in> set es0" and es: "set es \<subseteq> set es0" by simp_all
  obtain n1 where n1: "queue (visit_entry fs a d x w) = queue w @ n1"
    "\<forall>p \<in> set n1. height p < height d"
    using visit_entry_queue_height [OF assms x, of a w] by (elim exE conjE)
  obtain n2 where n2: "queue (scan_entries fs a d es (visit_entry fs a d x w)) =
      queue (visit_entry fs a d x w) @ n2" "\<forall>p \<in> set n2. height p < height d"
    using Cons.IH [OF es, of "visit_entry fs a d x w"] by (elim exE conjE)
  have "queue (scan_entries fs a d (x # es) w) = queue w @ (n1 @ n2)"
    using n1(1) n2(1) by simp
  moreover have "\<forall>p \<in> set (n1 @ n2). height p < height d"
    using n1(2) n2(2) by auto
  ultimately show ?case by (intro exI [of _ "n1 @ n2"] conjI)
qed

lemma find_step_queue_new:
  assumes "ranked fs height"
  shows "\<exists>new. queue (find_step fs a d w) = queue w @ new \<and>
     (\<forall>p \<in> set new. height p < height d)"
proof (cases "opendir fs d")
  case None
  then show ?thesis by (simp add: find_step_def)
next
  case (Some es)
  from scan_entries_queue_height [OF assms Some subset_refl, of a w] Some
  show ?thesis by (simp add: find_step_def)
qed

lemma find_loop_terminates:
  assumes "ranked fs height"
  shows "\<exists>n. queue (find_loop n fs a w) = []"
proof -
  have "wf (mult less_than)" by (simp add: wf_mult)
  then show ?thesis
  proof (induction "image_mset height (mset (queue w))" arbitrary: w rule: wf_induct_rule)
    case less
    show ?case
    proof (cases "queue w")
      case Nil
      then have "queue (find_loop 0 fs a w) = []" by simp
      then show ?thesis by blast
    next
      case (Cons d rest)
      let ?w = "find_step fs a d (w\<lparr>queue := rest\<rparr>)"
      obtain new where new: "queue ?w = rest @ new" "\<forall>p \<in> set new. height p < height d"
        using find_step_queue_new [OF assms, of a d "w\<lparr>queue := rest\<rparr>"] by auto
      have "(image_mset height (mset rest) + image_mset height (mset new),
             image_mset height (mset rest) + {#height d#}) \<in> mult less_than"
        by (rule one_step_implies_mult) (use new(2) in auto)
      then have "(image_mset height (mset (queue ?w)), image_mset height (mset (queue w)))
          \<in> mult less_than"
        by (simp add: new(1) Cons)
      from less(1) [OF this] obtain n where "queue (find_loop n fs a ?w) = []" by blast
      with Cons have "queue (find_loop (Suc n) fs a w) = []" by simp
      then show ?thesis by blast
    qed
  qed
qed

lemma queue_position:
  "queue w = xs @ d # ys \<Longrightarrow> \<exists>rest. queue (find_loop (length xs) fs a w) = d # rest"
proof (induction xs arbitrary: w ys)
  case Nil
  then show ?case by simp
next
  case (Cons x xs)
  let ?w = "find_step fs a x (w\<lparr>queue := xs @ d # ys\<rparr>)"
  from find_step_extends [of "w\<lparr>queue := xs @ d # ys\<rparr>" fs a x]
  obtain qs where "queue ?w = xs @ d # (ys @ qs)" by (auto simp: extends_def)
  from Cons.IH [OF this] Cons.prems show ?case by simp
qed

lemma expands_processed:
  assumes "expands fs root d" and "queue w = [root]"
  shows "\<exists>n rest. queue (find_loop n fs a w) = d # rest"
  using assms(1)
proof induction
  case start
  from assms(2) have "queue (find_loop 0 fs a w) = root # []" by simp
  then show ?case by blast
next
  case (child d es e sb)
  then obtain n rest where n: "queue (find_loop n fs a w) = d # rest" by blast
  let ?v = "find_loop n fs a w"
  let ?w = "find_step fs a d (?v\<lparr>queue := rest\<rparr>)"
  have step: "find_loop (Suc n) fs a w = ?w" using n by (rule find_loop_turn)
  have "covered fs a {} ?w d" by (rule find_step_covers)
  with child.hyps have "join_path d e \<in> set (queue ?w)"
    unfolding covered_def by (metis Un_empty_right)
  then obtain xs ys where "queue ?w = xs @ join_path d e # ys"
    by (auto dest: split_list)
  from queue_position [OF this, of fs a] obtain rest' where
    "queue (find_loop (length xs) fs a ?w) = join_path d e # rest'" by blast
  then have "queue (find_loop (Suc n + length xs) fs a w) = join_path d e # rest'"
    by (simp only: find_loop_add [of "Suc n"] step)
  then show ?case by blast
qed

lemma find_loop_result_mono:
  "n \<le> m \<Longrightarrow> set (result (find_loop n fs a w)) \<subseteq> set (result (find_loop m fs a w))"
proof -
  assume "n \<le> m"
  then have "find_loop m fs a w = find_loop (m - n) fs a (find_loop n fs a w)"
    using find_loop_add [of n "m - n" fs a w] by simp
  with find_loop_extends [of "m - n" fs a "find_loop n fs a w"] show ?thesis by auto
qed

lemma entry_eventually_found:
  assumes "expands fs (path a) d" and "opendir fs d = Some es" and "e \<in> set es"
    and "e \<noteq> ''.''" and "e \<noteq> ''..''" and "lstat fs (join_path d e) = Some sb"
    and "\<not> S_ISDIR (st_mode sb)" and "check a sb e"
  shows "\<exists>n. \<forall>m \<ge> n. join_path d e \<in> set (result (find_loop m fs a (find_start a res0)))"
proof -
  let ?s = "find_start a res0"
  have "queue ?s = [path a]" by (simp add: find_start_def)
  from expands_processed [OF assms(1) this, of a] obtain n rest where
    n: "queue (find_loop n fs a ?s) = d # rest" by blast
  let ?v = "find_loop n fs a ?s"
  let ?w = "find_step fs a d (?v\<lparr>queue := rest\<rparr>)"
  have step: "find_loop (Suc n) fs a ?s = ?w" using n by (rule find_loop_turn)
  have "covered fs a {} ?w d" by (rule find_step_covers)
  with assms(2-8) have "join_path d e \<in> set (result ?w)"
    unfolding covered_def by metis
  with step have "join_path d e \<in> set (result (find_loop (Suc n) fs a ?s))"
    by (simp only:)
  with find_loop_result_mono [of "Suc n" _ fs a ?s] show ?thesis by blast
qed

lemma find_walk_total:
  assumes "ranked fs height"
  shows "\<exists>n w'. \<forall>m \<ge> n. find_walk m fs a res0 = Some w'"
proof -
  let ?s = "find_start a res0"
  from find_loop_terminates [OF assms, of a ?s] obtain n where
    n: "queue (find_loop n fs a ?s) = []" by blast
  have "find_walk m fs a res0 = Some (find_loop n fs a ?s)" if "n \<le> m" for m
  proof -
    from that have "find_loop m fs a ?s = find_loop (m - n) fs a (find_loop n fs a ?s)"
      using find_loop_add [of n "m - n" fs a ?s] by simp
    with n have "find_loop m fs a ?s = find_loop n fs a ?s" by (simp add: find_loop_empty)
    with n show ?thesis by (simp add: find_walk_def)
  qed
  then show ?thesis by blast
qed

text \<open>
  C4. A directory that cannot be opened costs one turn of the outer loop: the failure is
  reported, and the loop goes on with the rest of the queue and the same result. A
  child whose \<^verbatim>\<open>lstat\<close> fails is reported and the inner loop goes on with the other
  children. The traversal only ever appends to the result and to the reports. Every
  entry that is not a directory, passes \<^verbatim>\<open>check\<close> and lies in a directory that the walk
  gets to and can list is in the result after finitely many turns of the loop and stays
  there, whatever else could not be opened or read and whether or not the traversal
  ends. On a file system without cycles the traversal ends: with enough fuel \<^verbatim>\<open>find\<close>
  returns, and its result holds every such entry after what it held at the start.
\<close>

theorem io_failures_are_skipped:
  "(opendir fs d = None \<longrightarrow>
      find_loop (Suc n) fs a (w\<lparr>queue := d # q\<rparr>) =
        find_loop n fs a (w\<lparr>queue := q, errlog := errlog w @ [''opendir'']\<rparr>)) \<and>
   (e \<noteq> ''.'' \<and> e \<noteq> ''..'' \<and> lstat fs (join_path d e) = None \<longrightarrow>
      scan_entries fs a d (e # es) w =
        scan_entries fs a d es (w\<lparr>errlog := errlog w @ [''lstat'']\<rparr>)) \<and>
   (\<exists>rs ls. result (find_loop n fs a w) = result w @ rs \<and>
            errlog (find_loop n fs a w) = errlog w @ ls) \<and>
   (find_walk n fs a found = Some w' \<and> expands fs (path a) d' \<and> opendir fs d' = Some es' \<and>
    e' \<in> set es' \<and> e' \<noteq> ''.'' \<and> e' \<noteq> ''..'' \<and> lstat fs (join_path d' e') = Some sb \<and>
    \<not> S_ISDIR (st_mode sb) \<and> check a sb e' \<longrightarrow>
      join_path d' e' \<in> set (result w')) \<and>
   (expands fs (path a) d' \<and> opendir fs d' = Some es' \<and>
    e' \<in> set es' \<and> e' \<noteq> ''.'' \<and> e' \<noteq> ''..'' \<and> lstat fs (join_path d' e') = Some sb \<and>
    \<not> S_ISDIR (st_mode sb) \<and> check a sb e' \<longrightarrow>
      (\<exists>k. \<forall>m \<ge> k. join_path d' e' \<in> set (result (find_loop m fs a (find_start a found))))) \<and>
   (ranked fs height \<longrightarrow>
      (\<exists>k v. (\<forall>m \<ge> k. find_walk m fs a found = Some v) \<and> (\<exists>rs. result v = found @ rs) \<and>
         (expands fs (path a) d' \<and> opendir fs d' = Some es' \<and> e' \<in> set es' \<and>
          e' \<noteq> ''.'' \<and> e' \<noteq> ''..'' \<and> lstat fs (join_path d' e') = Some sb \<and>
          \<not> S_ISDIR (st_mode sb) \<and> check a sb e' \<longrightarrow>
            join_path d' e' \<in> set (result v))))"
proof -
  have 1: "find_loop (Suc n) fs a (w\<lparr>queue := d # q\<rparr>) =
      find_loop n fs a (w\<lparr>queue := q, errlog := errlog w @ [''opendir'']\<rparr>)"
    if "opendir fs d = None"
    using that by (simp add: find_step_def)
  have 2: "scan_entries fs a d (e # es) w =
      scan_entries fs a d es (w\<lparr>errlog := errlog w @ [''lstat'']\<rparr>)"
    if "e \<noteq> ''.''" "e \<noteq> ''..''" "lstat fs (join_path d e) = None"
    using that by (simp add: visit_entry_def)
  have 5: "\<exists>k. \<forall>m \<ge> k. join_path d' e' \<in> set (result (find_loop m fs a (find_start a found)))"
    if "expands fs (path a) d' \<and> opendir fs d' = Some es' \<and>
      e' \<in> set es' \<and> e' \<noteq> ''.'' \<and> e' \<noteq> ''..'' \<and> lstat fs (join_path d' e') = Some sb \<and>
      \<not> S_ISDIR (st_mode sb) \<and> check a sb e'"
    using that by (intro entry_eventually_found [of fs a d' es' e' sb]) simp_all
  have 6: "\<exists>k v. (\<forall>m \<ge> k. find_walk m fs a found = Some v) \<and> (\<exists>rs. result v = found @ rs) \<and>
         (expands fs (path a) d' \<and> opendir fs d' = Some es' \<and> e' \<in> set es' \<and>
          e' \<noteq> ''.'' \<and> e' \<noteq> ''..'' \<and> lstat fs (join_path d' e') = Some sb \<and>
          \<not> S_ISDIR (st_mode sb) \<and> check a sb e' \<longrightarrow>
            join_path d' e' \<in> set (result v))"
    if r: "ranked fs height"
  proof -
    from find_walk_total [OF r, of a found] obtain k v where
      kv: "\<forall>m \<ge> k. find_walk m fs a found = Some v" by blast
    then have fw: "find_walk k fs a found = Some v" by simp
    then have "v = find_loop k fs a (find_start a found)"
      by (auto simp: find_walk_def Let_def split: if_splits)
    with find_loop_extends [of k fs a "find_start a found"]
    have "\<exists>rs. result v = found @ rs" by (auto simp: find_start_def)
    moreover have "join_path d' e' \<in> set (result v)"
      if "expands fs (path a) d' \<and> opendir fs d' = Some es' \<and> e' \<in> set es' \<and>
          e' \<noteq> ''.'' \<and> e' \<noteq> ''..'' \<and> lstat fs (join_path d' e') = Some sb \<and>
          \<not> S_ISDIR (st_mode sb) \<and> check a sb e'"
      using that by (intro find_walk_complete [OF fw, of d' es' e' sb]) simp_all
    ultimately show ?thesis using kv by blast
  qed
  have 4: "join_path d' e' \<in> set (result w')"
    if "find_walk n fs a found = Some w' \<and> expands fs (path a) d' \<and>
      opendir fs d' = Some es' \<and> e' \<in> set es' \<and> e' \<noteq> ''.'' \<and> e' \<noteq> ''..'' \<and>
      lstat fs (join_path d' e') = Some sb \<and> \<not> S_ISDIR (st_mode sb) \<and> check a sb e'"
    using that by (intro find_walk_complete [of n fs a found w' d' es' e' sb]) simp_all
  show ?thesis
    apply (intro conjI)
         apply (rule impI, erule 1)
        apply (rule impI, rule 2; simp)
       apply (rule find_loop_extends)
      apply (rule impI, erule 4)
     apply (rule impI, erule 5)
    apply (rule impI, erule 6)
    done
qed

section \<open>Properties of the executor\<close>

lemma push_files_eq: "push_files res args = args @ map Some res"
  by (induction res arbitrary: args) simp_all

text \<open>
  C7. The argument vector the child passes to \<^verbatim>\<open>execv\<close> is the match list in its order
  followed by the null terminator: there is no slot for the name of the program, entry
  \<open>i\<close> of the vector is match \<open>i\<close>, and an empty match list gives the terminator alone.
  When an executable is configured and \<^verbatim>\<open>fork\<close> has returned in the child, \<^verbatim>\<open>main\<close>
  ends in that \<^verbatim>\<open>execv\<close> of the configured path.
\<close>

theorem child_args_are_matches:
  "child_args res = map Some res @ [None] \<and>
   length (child_args res) = length res + 1 \<and>
   (\<forall>i < length res. child_args res ! i = Some (res ! i)) \<and>
   child_args res ! length res = None \<and>
   child_args [] = [None] \<and>
   execute In_child ws filepath res = Execv filepath (child_args res) \<and>
   (needs_exec arguments \<noteq> 0 \<and> ok g \<and> fork_answer e = In_child \<and>
    parse_arguments (garbage e) argv globals_init = Inr (arguments, g) \<and>
    find_walk (fuel e) (files e) arguments [] = Some w \<longrightarrow>
      main e argv =
        Replaced (exec_path arguments) (map Some (result w) @ [None])
          ((if length argv \<le> 1 then [help_text, ''Wrong usage, see help''] else [help_text])
           @ result w)
          (errlog w))"
  by (auto simp: child_args_def push_files_eq nth_append execute_def main_def Let_def)

section \<open>The properties on the concrete inputs\<close>

lemma parse_root_only:
  "parse_arguments zero_garbage [''find'', ''root''] globals_init = Inr (root_only, globals_init)"
  by (simp add: parse_eval)




lemma env_simps:
  "garbage example_env = zero_garbage" "files example_env = example_fs"
  "fuel example_env = 10" "fork_answer example_env = In_child"
  by (simp_all add: example_env_def)

text \<open>
  \<^verbatim>\<open>find root -bogus x\<close> ends with \<^verbatim>\<open>Unknown option\<close>, and
  \<^verbatim>\<open>find root -inum abc -bogus x\<close> does not reach \<^verbatim>\<open>find\<close> either.
\<close>

theorem unknown_option_fails_witness:
  "''-bogus'' \<notin> set known_options \<and>
   parse_arguments zero_garbage [''find'', ''root'', ''-bogus'', ''x''] globals_init =
     Inr (root_only, \<lparr>ok = False, reason = ''Unknown option''\<rparr>) \<and>
   main example_env [''find'', ''root'', ''-bogus'', ''x''] =
     Exit_failure [help_text] [''Unknown option, see help''] None \<and>
   \<not> reached_find (main example_env [''find'', ''root'', ''-inum'', ''abc'', ''-bogus'', ''x''])"
proof -
  have u: "''-bogus'' \<notin> set known_options" by (simp add: known_options_def)
  have hyp: "parse_arguments (garbage example_env) [''find'', ''root''] globals_init =
      Inr (root_only, globals_init) \<and> ok globals_init \<and> even (length [''find'', ''root'']) \<and>
      ''-bogus'' \<notin> set known_options"
    using parse_root_only u by (simp add: env_simps globals_init_def)
  have hyp2: "2 \<le> (4 :: nat) \<and> even (4 :: nat) \<and>
      Suc 4 < length [''find'', ''root'', ''-inum'', ''abc'', ''-bogus'', ''x''] \<and>
      [''find'', ''root'', ''-inum'', ''abc'', ''-bogus'', ''x''] ! 4 \<notin> set known_options"
    using u by simp
  from unknown_option_fails [THEN conjunct1, THEN mp, OF hyp, of "''x''" "[]"]
    unknown_option_fails [THEN conjunct2, THEN mp, OF hyp2, of example_env] u
  show ?thesis by (simp add: env_simps)
qed

text \<open>
  C5 does not hold of every command line with an unknown flag: on
  \<^verbatim>\<open>find root -size 5 -bogus x\<close> the reason reported is that of the \<^verbatim>\<open>-size\<close> option
  before it.
\<close>

theorem unknown_option_counterexample:
  "''-bogus'' \<notin> set known_options \<and>
   main example_env [''find'', ''root'', ''-size'', ''5'', ''-bogus'', ''x''] =
     Exit_failure [help_text] [''Wrong usage of \"size\" option, see help''] None"
  by (simp add: known_options_def main_def parse_eval env_simps)




lemma digits_5: "digits_value 0 ''5'' = 5" "\<forall>c \<in> set ''5''. isdigit c"
  by (simp_all add: digit_value_def isdigit_def)

text \<open>\<^verbatim>\<open>-inum -5\<close> and \<^verbatim>\<open>-nlinks -5\<close> store \<open>2 ^ 64 - 5\<close>.\<close>

theorem negative_number_wraps_witness:
  "parse_arguments zero_garbage [''find'', ''root'', ''-inum'', ''-5''] globals_init =
     Inr (root_only\<lparr>needs_inum := 1, inum := 18446744073709551611\<rparr>, globals_init) \<and>
   parse_arguments zero_garbage [''find'', ''root'', ''-nlinks'', ''-5''] globals_init =
     Inr (root_only\<lparr>needs_nlinks := 1, nlinks := 18446744073709551611\<rparr>, globals_init) \<and>
   unat (- 5 :: 64 word) = 2 ^ 64 - 5"
proof -
  have n: "digits_value 0 ''5'' \<le> ULONG_MAX"
    unfolding digits_5(1) by (simp add: ULONG_MAX_def)
  have g: "ok globals_init" by (simp add: globals_init_def)
  have ev: "even (length [''find'', ''root''])" by simp
  have ne: "''5'' \<noteq> []" by simp
  from negative_number_wraps [OF parse_root_only g ev ne digits_5(2) n, unfolded digits_5(1)]
  show ?thesis by simp
qed

text \<open>
  C10 does not hold of every minus sign followed by digits: on
  \<^verbatim>\<open>find root -inum -18446744073709551616\<close> \<^verbatim>\<open>std::stoul\<close> throws \<^verbatim>\<open>std::out_of_range\<close>.
\<close>

theorem negative_overflow_counterexample:
  "parse_arguments zero_garbage [''find'', ''root'', ''-inum'', ''-18446744073709551616'']
     globals_init = Inl Out_of_range \<and>
   main example_env [''find'', ''root'', ''-inum'', ''-18446744073709551616''] =
     Uncaught Out_of_range [help_text]"
  by (simp add: main_def parse_eval stoul_eval env_simps)

lemma find_root_only:
  "find_walk 10 example_fs root_only [] =
     Some \<lparr>queue = [], result = [''root/a.txt'', ''root/sub/b.txt''],
           errlog = [''lstat'', ''opendir'']\<rparr>"
  by (simp add: walk_eval root_only_def usage_default_def)

text \<open>
  The traversal of the example ends with the two files as matches; neither is a
  directory, and the queued \<^verbatim>\<open>root/sub\<close> is one.
\<close>

theorem matches_are_never_directories_witness:
  "find_walk 10 example_fs root_only [] =
     Some \<lparr>queue = [], result = [''root/a.txt'', ''root/sub/b.txt''],
           errlog = [''lstat'', ''opendir'']\<rparr> \<and>
   non_directory example_fs ''root/a.txt'' \<and> non_directory example_fs ''root/sub/b.txt'' \<and>
   is_directory example_fs ''root/sub'' \<and>
   main example_env [''find'', ''root''] =
     Returned [help_text, ''root/a.txt'', ''root/sub/b.txt''] [''lstat'', ''opendir'']
       [''root/a.txt'', ''root/sub/b.txt''] \<and>
   result (visit_entry example_fs root_only ''root'' ''sub'' (find_start root_only [])) = []"
proof -
  let ?e = example_env
  let ?w = "\<lparr>queue = [], result = [''root/a.txt'', ''root/sub/b.txt''],
           errlog = [''lstat'', ''opendir'']\<rparr>"
  have m: "main ?e [''find'', ''root''] =
     Returned [help_text, ''root/a.txt'', ''root/sub/b.txt''] [''lstat'', ''opendir'']
       [''root/a.txt'', ''root/sub/b.txt'']"
    using parse_root_only find_root_only
    by (simp add: main_def env_simps globals_init_def root_only_def usage_default_def)
  note t = matches_are_never_directories [of 10 example_fs root_only ?e "[''find'', ''root'']"]
  from t [THEN conjunct2, THEN conjunct2, THEN conjunct1, THEN spec, THEN mp, OF find_root_only]
  have 1: "non_directory example_fs ''root/a.txt''" by simp
  from t [THEN conjunct2, THEN conjunct2, THEN conjunct2, THEN conjunct1,
      THEN spec, THEN spec, THEN spec, THEN mp, OF m]
  have 2: "non_directory example_fs ''root/sub/b.txt''" by (simp add: env_simps)
  have "queue (find_loop 1 example_fs root_only (find_start root_only [])) =
      [''root/locked'', ''root/sub'']"
    by (simp add: walk_eval root_only_def usage_default_def)
  with matches_are_never_directories [of 1 example_fs root_only ?e "[''find'', ''root'']",
      THEN conjunct2, THEN conjunct1]
  have 3: "is_directory example_fs ''root/sub''"
    by (simp add: root_only_def)
  have "lstat example_fs (join_path ''root'' ''sub'') = Some (a_directory 44) \<and>
      S_ISDIR (st_mode (a_directory 44))"
    by (simp add: example_fs_def join_path_def a_directory_def S_ISDIR_def)
  from matches_are_never_directories
    [where fs = example_fs and a = root_only and d = "''root''" and x = "''sub''"
      and w = "find_start root_only []",
      THEN conjunct2, THEN conjunct2, THEN conjunct2, THEN conjunct2, THEN mp, OF this]
  have 4: "result (visit_entry example_fs root_only ''root'' ''sub'' (find_start root_only [])) = []"
    by (simp add: find_start_def)
  from find_root_only 1 2 3 4 m show ?thesis by simp
qed

text \<open>
  In the example \<^verbatim>\<open>root/locked\<close> cannot be opened and \<^verbatim>\<open>root/gone\<close> cannot be read, and
  \<^verbatim>\<open>root/sub/b.txt\<close> is in the result all the same: from some turn of the loop on, and
  in what \<^verbatim>\<open>find\<close> returns, which it does because the example has no cycle.
\<close>

theorem io_failures_are_skipped_witness:
  "opendir example_fs ''root/locked'' = None \<and>
   lstat example_fs (join_path ''root'' ''gone'') = None \<and>
   expands example_fs ''root'' ''root/sub'' \<and>
   find_walk 10 example_fs root_only [] =
     Some \<lparr>queue = [], result = [''root/a.txt'', ''root/sub/b.txt''],
           errlog = [''lstat'', ''opendir'']\<rparr> \<and>
   join_path ''root/sub'' ''b.txt'' \<in>
     set (result \<lparr>queue = [], result = [''root/a.txt'', ''root/sub/b.txt''],
                  errlog = [''lstat'', ''opendir'']\<rparr>) \<and>
   find_loop 3 example_fs root_only
       \<lparr>queue = [''root/locked'', ''root/sub''], result = [''root/a.txt''], errlog = [''lstat'']\<rparr> =
     find_loop 2 example_fs root_only
       \<lparr>queue = [''root/sub''], result = [''root/a.txt''], errlog = [''lstat'', ''opendir'']\<rparr> \<and>
   scan_entries example_fs root_only ''root'' [''gone'', ''sub'']
       \<lparr>queue = [], result = [], errlog = []\<rparr> =
     scan_entries example_fs root_only ''root'' [''sub'']
       \<lparr>queue = [], result = [], errlog = [''lstat'']\<rparr> \<and>
   (\<exists>k. \<forall>m \<ge> k. ''root/sub/b.txt'' \<in>
      set (result (find_loop m example_fs root_only (find_start root_only [])))) \<and>
   ranked example_fs example_height \<and>
   (\<exists>k v. (\<forall>m \<ge> k. find_walk m example_fs root_only [] = Some v) \<and>
      ''root/sub/b.txt'' \<in> set (result v))"
proof -
  let ?w = "\<lparr>queue = [], result = [''root/a.txt'', ''root/sub/b.txt''],
           errlog = [''lstat'', ''opendir'']\<rparr>"
  let ?wb = "\<lparr>queue = [], result = [''root/a.txt''], errlog = [''lstat'']\<rparr>"
  let ?wc = "\<lparr>queue = [], result = [], errlog = []\<rparr> :: walk"
  have o: "opendir example_fs ''root/locked'' = None" by (simp add: example_fs_def)
  have l: "''gone'' \<noteq> ''.'' \<and> ''gone'' \<noteq> ''..'' \<and>
      lstat example_fs (join_path ''root'' ''gone'') = None"
    by (simp add: example_fs_def join_path_def)
  have sub: "expands example_fs ''root'' (join_path ''root'' ''sub'')"
    by (rule expands.child [OF expands.start,
          where es = "[''.'', ''..'', ''a.txt'', ''locked'', ''gone'', ''sub'']"
            and sb = "a_directory 44"])
      (simp_all add: example_fs_def join_path_def a_directory_def S_ISDIR_def)
  then have x: "expands example_fs ''root'' ''root/sub''" by (simp add: join_path_def)
  have h: "find_walk 10 example_fs root_only [] = Some ?w \<and>
      expands example_fs (path root_only) ''root/sub'' \<and>
      opendir example_fs ''root/sub'' = Some [''.'', ''..'', ''b.txt''] \<and>
      ''b.txt'' \<in> set [''.'', ''..'', ''b.txt''] \<and> ''b.txt'' \<noteq> ''.'' \<and> ''b.txt'' \<noteq> ''..'' \<and>
      lstat example_fs (join_path ''root/sub'' ''b.txt'') = Some file_150 \<and>
      \<not> S_ISDIR (st_mode file_150) \<and> check root_only file_150 ''b.txt''"
  proof -
    have f: "opendir example_fs ''root/sub'' = Some [''.'', ''..'', ''b.txt'']"
      "lstat example_fs (join_path ''root/sub'' ''b.txt'') = Some file_150"
      "path root_only = ''root''"
      by (simp_all add: example_fs_def join_path_def root_only_def)
    have m: "\<not> S_ISDIR (st_mode file_150)"
      by (simp add: file_150_def S_ISDIR_def)
    have c: "check root_only file_150 ''b.txt''"
      by (simp add: check_iff root_only_def usage_default_def NOSIZE_def)
    show ?thesis
      apply (intro conjI)
      using f m c find_root_only x by simp_all
  qed
  from h have h': "expands example_fs (path root_only) ''root/sub'' \<and>
      opendir example_fs ''root/sub'' = Some [''.'', ''..'', ''b.txt''] \<and>
      ''b.txt'' \<in> set [''.'', ''..'', ''b.txt''] \<and> ''b.txt'' \<noteq> ''.'' \<and> ''b.txt'' \<noteq> ''..'' \<and>
      lstat example_fs (join_path ''root/sub'' ''b.txt'') = Some file_150 \<and>
      \<not> S_ISDIR (st_mode file_150) \<and> check root_only file_150 ''b.txt''"
    by (rule conjunct2)
  have rk: "ranked example_fs example_height"
    unfolding ranked_def
    by (simp add: example_fs_def example_height_def join_path_def a_directory_def
        file_50_def file_150_def S_ISDIR_def)
  note t4 = io_failures_are_skipped
    [THEN conjunct2, THEN conjunct2, THEN conjunct2, THEN conjunct1, THEN mp]
  note t5 = io_failures_are_skipped
    [where found = "[]", THEN conjunct2, THEN conjunct2, THEN conjunct2, THEN conjunct2,
      THEN conjunct1, THEN mp]
  note t6 = io_failures_are_skipped
    [where found = "[]" and a = root_only and d' = "''root/sub''" and e' = "''b.txt''"
      and es' = "[''.'', ''..'', ''b.txt'']" and sb = file_150,
      THEN conjunct2, THEN conjunct2, THEN conjunct2, THEN conjunct2, THEN conjunct2, THEN mp]
  have 5: "\<exists>k. \<forall>m \<ge> k. ''root/sub/b.txt'' \<in>
      set (result (find_loop m example_fs root_only (find_start root_only [])))"
    using t5 [OF h'] by (simp add: join_path_def)
  from t6 [OF rk] h' have 6: "\<exists>k v. (\<forall>m \<ge> k. find_walk m example_fs root_only [] = Some v) \<and>
      ''root/sub/b.txt'' \<in> set (result v)"
    by (simp add: join_path_def)
  from io_failures_are_skipped
      [where n = 2 and a = root_only and w = ?wb and q = "[''root/sub'']",
        THEN conjunct1, THEN mp, OF o]
    io_failures_are_skipped
      [where a = root_only and es = "[''sub'']" and w = ?wc,
        THEN conjunct2, THEN conjunct1, THEN mp, OF l]
    t4 [OF h] o l x find_root_only
  have "opendir example_fs ''root/locked'' = None \<and>
   lstat example_fs (join_path ''root'' ''gone'') = None \<and>
   expands example_fs ''root'' ''root/sub'' \<and>
   find_walk 10 example_fs root_only [] = Some ?w \<and>
   join_path ''root/sub'' ''b.txt'' \<in> set (result ?w) \<and>
   find_loop 3 example_fs root_only
       \<lparr>queue = [''root/locked'', ''root/sub''], result = [''root/a.txt''], errlog = [''lstat'']\<rparr> =
     find_loop 2 example_fs root_only
       \<lparr>queue = [''root/sub''], result = [''root/a.txt''], errlog = [''lstat'', ''opendir'']\<rparr> \<and>
   scan_entries example_fs root_only ''root'' [''gone'', ''sub''] ?wc =
     scan_entries example_fs root_only ''root'' [''sub'']
       \<lparr>queue = [], result = [], errlog = [''lstat'']\<rparr>"
    by (simp add: eval_nat_numeral(2,3))
  with 5 rk 6 show ?thesis by (simp only: simp_thms)
qed

text \<open>\<^verbatim>\<open>find root -exec /bin/echo\<close> in the child: \<^verbatim>\<open>argv[0]\<close> is \<^verbatim>\<open>root/a.txt\<close>.\<close>

theorem child_args_are_matches_witness:
  "child_args [''root/a.txt'', ''root/sub/b.txt''] =
     [Some ''root/a.txt'', Some ''root/sub/b.txt'', None] \<and>
   child_args [''root/a.txt'', ''root/sub/b.txt''] ! 0 = Some ''root/a.txt'' \<and>
   main example_env [''find'', ''root'', ''-exec'', ''/bin/echo''] =
     Replaced ''/bin/echo'' [Some ''root/a.txt'', Some ''root/sub/b.txt'', None]
       [help_text, ''root/a.txt'', ''root/sub/b.txt''] [''lstat'', ''opendir'']"
proof -
  let ?a = "root_only\<lparr>needs_exec := 1, exec_path := ''/bin/echo''\<rparr>"
  let ?w = "\<lparr>queue = [], result = [''root/a.txt'', ''root/sub/b.txt''],
           errlog = [''lstat'', ''opendir'']\<rparr>"
  have p: "parse_arguments zero_garbage [''find'', ''root'', ''-exec'', ''/bin/echo'']
      globals_init = Inr (?a, globals_init)"
    by (simp add: parse_eval)
  have f: "find_walk 10 example_fs ?a [] = Some ?w"
    by (simp add: walk_eval root_only_def usage_default_def)
  have h: "needs_exec ?a \<noteq> 0 \<and> ok globals_init \<and> fork_answer example_env = In_child \<and>
      parse_arguments (garbage example_env) [''find'', ''root'', ''-exec'', ''/bin/echo'']
        globals_init = Inr (?a, globals_init) \<and>
      find_walk (fuel example_env) (files example_env) ?a [] = Some ?w"
    using p f by (simp add: env_simps globals_init_def)
  note t = child_args_are_matches [where res = "[''root/a.txt'', ''root/sub/b.txt'']"]
  have i: "(0 :: nat) < length [''root/a.txt'', ''root/sub/b.txt'']" by simp
  from t [THEN conjunct1] 
    t [THEN conjunct2, THEN conjunct2, THEN conjunct1, THEN spec, THEN mp, OF i]
    child_args_are_matches [THEN conjunct2, THEN conjunct2, THEN conjunct2, THEN conjunct2,
      THEN conjunct2, THEN conjunct2, THEN mp, OF h]
  show ?thesis by simp
qed

end
